theory Spec2Isabelle
  imports Main
begin

section \<open>JSON values and the serialiser used on the request path\<close>

text \<open>
  The values that \<^verbatim>\<open>json.loads\<close> produces and \<^verbatim>\<open>json.dumps\<close> consumes. A Python
  \<^verbatim>\<open>dict\<close> is an association list in insertion order (keys distinct, as Python
  keeps them); \<^verbatim>\<open>None\<close> is \<open>JNull\<close>. Floating point numbers are left out.
  Strings are lists of 8-bit characters, so only code points below 256 occur.
\<close>

datatype json =
    JNull
  | JBool bool
  | JInt int
  | JStr string
  | JArr "json list"
  | JObj "(string \<times> json) list"

type_synonym pydict = "(string \<times> json) list"

text \<open>\<^verbatim>\<open>str(n)\<close> for a Python integer: decimal digits, a minus sign when negative.\<close>

definition digit_char :: "nat \<Rightarrow> char" where
  "digit_char d = char_of (of_char CHR ''0'' + d :: nat)"

fun str_nat :: "nat \<Rightarrow> string" where
  "str_nat n = (if n < 10 then [digit_char n] else str_nat (n div 10) @ [digit_char (n mod 10)])"

declare str_nat.simps [simp del]

definition str_int :: "int \<Rightarrow> string" where
  "str_int i = (if i < 0 then CHR ''-'' # str_nat (nat (- i)) else str_nat (nat i))"

text \<open>
  \<^verbatim>\<open>json.encoder.py_encode_basestring_ascii\<close>: the quote and the backslash are
  escaped, the five short escapes are used for backspace, form feed, newline, carriage
  return and tab, every other character outside the range space .. tilde becomes
  \<^verbatim>\<open>\uXXXX\<close> with four lower-case hexadecimal digits.
\<close>

definition hex_char :: "nat \<Rightarrow> char" where
  "hex_char d = (if d < 10 then digit_char d else char_of (of_char CHR ''a'' + (d - 10) :: nat))"

definition escape_char :: "char \<Rightarrow> string" where
  "escape_char c =
     (let n = (of_char c :: nat) in
      if n = 34 then [CHR 0x5C, CHR 0x22]
      else if n = 92 then [CHR 0x5C, CHR 0x5C]
      else if n = 8 then [CHR 0x5C, CHR ''b'']
      else if n = 12 then [CHR 0x5C, CHR ''f'']
      else if n = 10 then [CHR 0x5C, CHR ''n'']
      else if n = 13 then [CHR 0x5C, CHR ''r'']
      else if n = 9 then [CHR 0x5C, CHR ''t'']
      else if 32 \<le> n \<and> n \<le> 126 then [c]
      else [CHR 0x5C, CHR ''u'', CHR ''0'', CHR ''0'', hex_char (n div 16), hex_char (n mod 16)])"

definition encode_basestring_ascii :: "string \<Rightarrow> string" where
  "encode_basestring_ascii s = [CHR 0x22] @ concat (map escape_char s) @ [CHR 0x22]"

text \<open>Python's \<^verbatim>\<open>sep.join(parts)\<close>.\<close>

fun join :: "string \<Rightarrow> string list \<Rightarrow> string" where
  "join sep [] = []"
| "join sep [p] = p"
| "join sep (p # q # ps) = p @ sep @ join sep (q # ps)"

text \<open>
  \<^verbatim>\<open>json.dumps(obj)\<close> with its default arguments: item separator \<^verbatim>\<open>", "\<close>, key
  separator \<^verbatim>\<open>": "\<close>, ASCII-only output, dictionary entries in insertion order.
\<close>

fun dumps :: "json \<Rightarrow> string"
  and dumps_items :: "json list \<Rightarrow> string list"
  and dumps_pairs :: "(string \<times> json) list \<Rightarrow> string list" where
  "dumps JNull = ''null''"
| "dumps (JBool b) = (if b then ''true'' else ''false'')"
| "dumps (JInt i) = str_int i"
| "dumps (JStr s) = encode_basestring_ascii s"
| "dumps (JArr xs) = ''['' @ join '', '' (dumps_items xs) @ '']''"
| "dumps (JObj kvs) = ''{'' @ join '', '' (dumps_pairs kvs) @ ''}''"
| "dumps_items [] = []"
| "dumps_items (x # xs) = dumps x # dumps_items xs"
| "dumps_pairs [] = []"
| "dumps_pairs ((k, v) # kvs) = (encode_basestring_ascii k @ '': '' @ dumps v) # dumps_pairs kvs"

section \<open>Python dictionaries, keys and errors\<close>

datatype error =
    KeyError
  | TypeError
  | AssertionError
  | InvalidStateError
  | JSONDecodeError
  | JsonRpcError json

text \<open>
  Keys of the two dictionaries of the transport. Python hashes \<^verbatim>\<open>True\<close> and
  \<^verbatim>\<open>1\<close> (and \<^verbatim>\<open>False\<close> and \<^verbatim>\<open>0\<close>) to the same key; lists and dictionaries are
  unhashable and raise \<^verbatim>\<open>TypeError\<close> when used as a key.
\<close>

datatype pykey = KNone | KInt int | KStr string

fun hashkey :: "json \<Rightarrow> error + pykey" where
  "hashkey JNull = Inr KNone"
| "hashkey (JBool b) = Inr (KInt (if b then 1 else 0))"
| "hashkey (JInt i) = Inr (KInt i)"
| "hashkey (JStr s) = Inr (KStr s)"
| "hashkey (JArr xs) = Inl TypeError"
| "hashkey (JObj kvs) = Inl TypeError"

text \<open>\<^verbatim>\<open>obj[key]\<close> with a string key: only a dictionary can be subscripted so.\<close>

fun getitem :: "json \<Rightarrow> string \<Rightarrow> error + json" where
  "getitem (JObj d) k = (case map_of d k of None \<Rightarrow> Inl KeyError | Some v \<Rightarrow> Inr v)"
| "getitem _ k = Inl TypeError"

section \<open>The transport state\<close>

text \<open>
  The attributes that \<^verbatim>\<open>start\<close> sets on the \<^verbatim>\<open>Rpc\<close> object, together with what
  the object can reach: the store of the \<^verbatim>\<open>asyncio.Future\<close> objects created by the
  calls (a future is named by its index in \<open>futures\<close>), the bytes written to the child's
  stdin, the objects printed by the reader loop, and the state of the reader task. An
  \<^verbatim>\<open>asyncio.Queue()\<close> without a size limit is the list of its items, oldest first.
\<close>

datatype future = Pending | Result pydict

datatype task_status = Running | Finished | Failed error

record rpc =
  id_counter :: int
  event_queues :: "pykey \<rightharpoonup> json list"
  request_events :: "pykey \<rightharpoonup> nat"
  futures :: "future list"
  stdin :: string
  printed :: "json list"
  reader_task :: task_status

text \<open>\<^verbatim>\<open>Rpc.start\<close>, lines 35 to 38: the state once the child has been spawned.\<close>

definition start :: rpc where
  "start = \<lparr>id_counter = 0, event_queues = Map.empty, request_events = Map.empty,
     futures = [], stdin = [], printed = [], reader_task = Running\<rparr>"

text \<open>
  What a coroutine gives when it is run up to its next suspension point: it is parked at
  an \<^verbatim>\<open>await\<close>, or it has returned.
\<close>

datatype 'a awaited = Suspended | Returned 'a

section \<open>The reader loop\<close>

text \<open>
  \<^verbatim>\<open>fut.set_result(response)\<close>: a future that is not pending raises
  \<^verbatim>\<open>InvalidStateError\<close>. (An index outside the store names no object; the registry
  never holds one.)
\<close>

definition set_result :: "rpc \<Rightarrow> nat \<Rightarrow> pydict \<Rightarrow> error + rpc" where
  "set_result st fut response =
     (if fut < length (futures st) \<and> futures st ! fut = Pending
      then Inr (st\<lparr>futures := (futures st)[fut := Result response]\<rparr>)
      else Inl InvalidStateError)"

text \<open>
  Lines 59 and 60: \<^verbatim>\<open>self.request_events.pop(response["id"])\<close> raises
  \<^verbatim>\<open>TypeError\<close> for an unhashable id and \<^verbatim>\<open>KeyError\<close> for an id that is not
  registered; the entry is gone before \<^verbatim>\<open>set_result\<close> runs. The result pairs the
  exception raised, if any, with the state left behind.
\<close>

definition handle_response :: "rpc \<Rightarrow> pydict \<Rightarrow> json \<Rightarrow> error option \<times> rpc" where
  "handle_response st response rid =
     (case hashkey rid of
        Inl e \<Rightarrow> (Some e, st)
      | Inr k \<Rightarrow>
          (case request_events st k of
             None \<Rightarrow> (Some KeyError, st)
           | Some fut \<Rightarrow>
               (let st1 = st\<lparr>request_events := (request_events st)(k := None)\<rparr> in
                case set_result st1 fut response of
                  Inl e \<Rightarrow> (Some e, st1)
                | Inr st2 \<Rightarrow> (None, st2))))"

text \<open>
  Lines 63 to 67. The queue of the account is created before \<^verbatim>\<open>params["event"]\<close>
  is evaluated, so a notification without that field leaves an empty queue behind.
  \<^verbatim>\<open>put\<close> on an unbounded queue appends and never suspends.
\<close>

definition handle_event :: "rpc \<Rightarrow> pydict \<Rightarrow> error option \<times> rpc" where
  "handle_event st response =
     (case getitem (JObj response) ''params'' of
        Inl e \<Rightarrow> (Some e, st)
      | Inr params \<Rightarrow>
          (case getitem params ''contextId'' of
             Inl e \<Rightarrow> (Some e, st)
           | Inr account_id \<Rightarrow>
               (case hashkey account_id of
                  Inl e \<Rightarrow> (Some e, st)
                | Inr k \<Rightarrow>
                    (let st1 = (if event_queues st k = None
                                then st\<lparr>event_queues := (event_queues st)(k \<mapsto> [])\<rparr>
                                else st)
                     in case getitem params ''event'' of
                          Inl e \<Rightarrow> (Some e, st1)
                        | Inr ev \<Rightarrow>
                            (None, st1\<lparr>event_queues :=
                               (event_queues st1)(k \<mapsto> the (event_queues st1 k) @ [ev])\<rparr>)))))"

text \<open>
  Lines 58 to 69, the routing of one decoded line. A decoded value that is not a
  dictionary raises \<^verbatim>\<open>TypeError\<close> on every path: \<^verbatim>\<open>"id" in response\<close> fails for
  numbers, booleans and \<^verbatim>\<open>None\<close>, and the subscript with a string fails for strings and
  lists.
\<close>

fun route :: "rpc \<Rightarrow> json \<Rightarrow> error option \<times> rpc" where
  "route st (JObj response) =
     (case map_of response ''id'' of
        Some rid \<Rightarrow> handle_response st response rid
      | None \<Rightarrow>
          (case map_of response ''method'' of
             None \<Rightarrow> (Some KeyError, st)
           | Some m \<Rightarrow>
               if m = JStr ''event'' then handle_event st response
               else (None, st\<lparr>printed := printed st @ [JObj response]\<rparr>)))"
| "route st _ = (Some TypeError, st)"

text \<open>
  One iteration of the loop of \<^verbatim>\<open>reader_loop\<close>, lines 54 to 69, on the line that
  \<^verbatim>\<open>readline\<close> returned. \<open>loads\<close> is \<^verbatim>\<open>json.loads\<close>, a parameter of the model. An
  empty line is the end of the stream and ends the task; an exception ends it too, and
  stays in the task.
\<close>

definition reader_iteration :: "(string \<Rightarrow> error + json) \<Rightarrow> rpc \<Rightarrow> string \<Rightarrow> rpc" where
  "reader_iteration loads st line =
     (if line = [] then st\<lparr>reader_task := Finished\<rparr>
      else case loads line of
             Inl e \<Rightarrow> st\<lparr>reader_task := Failed e\<rparr>
           | Inr response \<Rightarrow>
               (case route st response of
                  (Some e, st1) \<Rightarrow> st1\<lparr>reader_task := Failed e\<rparr>
                | (None, st1) \<Rightarrow> st1))"

text \<open>
  A decoder for concrete scenarios: \<^verbatim>\<open>json.loads\<close> on the lines of a table, each
  given with the value it decodes to; any other line is not JSON.
\<close>

definition loads_table :: "(string \<times> json) list \<Rightarrow> string \<Rightarrow> error + json" where
  "loads_table tbl line = (case map_of tbl line of None \<Rightarrow> Inl JSONDecodeError | Some v \<Rightarrow> Inr v)"

text \<open>The loop over the lines that the child writes, while the task is running.\<close>

fun reader_loop :: "(string \<Rightarrow> error + json) \<Rightarrow> rpc \<Rightarrow> string list \<Rightarrow> rpc" where
  "reader_loop loads st [] = st"
| "reader_loop loads st (line # rest) =
     (if reader_task st = Running
      then reader_loop loads (reader_iteration loads st line) rest
      else st)"

section \<open>Calls and events\<close>

text \<open>
  \<^verbatim>\<open>wait_for_event\<close>, lines 73 to 75. \<^verbatim>\<open>Queue.get\<close> returns the oldest item, or
  suspends while the queue is empty. The result follows the declared type
  \<^verbatim>\<open>Optional[dict]\<close>: \<open>None\<close> is the \<^verbatim>\<open>return None\<close> of line 75.
\<close>

definition wait_for_event :: "rpc \<Rightarrow> int \<Rightarrow> json option awaited \<times> rpc" where
  "wait_for_event st account_id =
     (case event_queues st (KInt account_id) of
        None \<Rightarrow> (Returned None, st)
      | Some [] \<Rightarrow> (Suspended, st)
      | Some (ev # rest) \<Rightarrow>
          (Returned (Some ev), st\<lparr>event_queues := (event_queues st)(KInt account_id \<mapsto> rest)\<rparr>))"

text \<open>
  The coroutine \<^verbatim>\<open>method\<close> that \<^verbatim>\<open>__getattr__\<close> returns, lines 79 to 94: from the
  call to the \<^verbatim>\<open>await fut\<close> of line 95, which no suspension point precedes. It gives
  the exception raised, or the request id and the future the caller now awaits.
  \<^verbatim>\<open>kwargs or args\<close> is the dictionary when it is not empty, else the tuple, which
  \<^verbatim>\<open>json.dumps\<close> writes as an array.
\<close>

definition method_call :: "rpc \<Rightarrow> string \<Rightarrow> json list \<Rightarrow> pydict \<Rightarrow> (error + int \<times> nat) \<times> rpc" where
  "method_call st attr args kwargs =
     (let st1 = st\<lparr>id_counter := id_counter st + 1\<rparr>;
          request_id = id_counter st1
      in if args \<noteq> [] \<and> kwargs \<noteq> [] then (Inl AssertionError, st1)
         else
           (let request = JObj [(''jsonrpc'', JStr ''2.0''),
                                (''method'', JStr attr),
                                (''params'', if kwargs \<noteq> [] then JObj kwargs else JArr args),
                                (''id'', JInt (id_counter st1))];
                data = dumps request @ [CHR 0x0A];
                st2 = st1\<lparr>stdin := stdin st1 @ data\<rparr>;
                fut = length (futures st2);
                st3 = st2\<lparr>futures := futures st2 @ [Pending]\<rparr>;
                st4 = st3\<lparr>request_events := (request_events st3)(KInt request_id \<mapsto> fut)\<rparr>
            in (Inr (request_id, fut), st4)))"

text \<open>Lines 96 to 99: what the caller does with the response once the future has it.\<close>

definition method_result :: "pydict \<Rightarrow> error + json" where
  "method_result response =
     (case map_of response ''error'' of
        Some e \<Rightarrow> Inl (JsonRpcError e)
      | None \<Rightarrow>
          (case map_of response ''result'' of
             Some r \<Rightarrow> Inr r
           | None \<Rightarrow> Inr JNull))"

text \<open>Lines 95 to 99: the caller parked at \<^verbatim>\<open>await fut\<close>, looked at in a state.\<close>

definition await_fut :: "rpc \<Rightarrow> nat \<Rightarrow> (error + json) awaited" where
  "await_fut st fut =
     (if fut < length (futures st)
      then (case futures st ! fut of
              Pending \<Rightarrow> Suspended
            | Result response \<Rightarrow> Returned (method_result response))
      else Suspended)"

section \<open>Construction and the child's environment\<close>

text \<open>
  The values of the keyword arguments that matter to \<^verbatim>\<open>__init__\<close>: a mapping from
  variable names to strings, \<^verbatim>\<open>None\<close>, or any other object (named by its
  \<^verbatim>\<open>repr\<close>). An environment is a map, since the order of its entries does not matter.
\<close>

datatype pyval = PyNone | PyMapping "string \<rightharpoonup> string" | PyOther string

text \<open>
  \<^verbatim>\<open>Rpc.__init__\<close>, lines 14 to 20, with the process environment \<^verbatim>\<open>os.environ\<close>
  as it is at that moment; the result is \<^verbatim>\<open>self._kwargs\<close>. The test of line 14 is
  Python's truth of \<^verbatim>\<open>accounts_dir\<close>: \<^verbatim>\<open>None\<close> and the empty string are both
  false. Unpacking \<^verbatim>\<open>**\<close> something that is not a mapping raises \<^verbatim>\<open>TypeError\<close>.
\<close>

definition init :: "(string \<rightharpoonup> string) \<Rightarrow> string option \<Rightarrow> (string \<rightharpoonup> pyval) \<Rightarrow> error + (string \<rightharpoonup> pyval)" where
  "init os_environ accounts_dir kwargs =
     (case accounts_dir of
        None \<Rightarrow> Inr kwargs
      | Some dir \<Rightarrow>
          if dir = [] then Inr kwargs
          else (case (case kwargs ''env'' of None \<Rightarrow> PyMapping os_environ | Some v \<Rightarrow> v) of
                  PyMapping env \<Rightarrow>
                    Inr (kwargs(''env'' \<mapsto> PyMapping (env(''DC_ACCOUNTS_PATH'' \<mapsto> dir))))
                | _ \<Rightarrow> Inl TypeError))"

text \<open>
  The environment of the child that \<^verbatim>\<open>start\<close> spawns with \<^verbatim>\<open>**self._kwargs\<close>,
  lines 29 to 34: the \<^verbatim>\<open>env\<close> argument when it is a mapping, the environment of the
  parent when it is \<^verbatim>\<open>None\<close> or not given.
\<close>

definition child_env :: "(string \<rightharpoonup> string) \<Rightarrow> (string \<rightharpoonup> pyval) \<Rightarrow> error + (string \<rightharpoonup> string)" where
  "child_env os_environ kwargs =
     (case kwargs ''env'' of
        None \<Rightarrow> Inr os_environ
      | Some PyNone \<Rightarrow> Inr os_environ
      | Some (PyMapping env) \<Rightarrow> Inr env
      | Some (PyOther v) \<Rightarrow> Inl TypeError)"

section \<open>Interleavings of callers and the reader\<close>

text \<open>
  The event loop runs one coroutine at a time, from one suspension point to the next.
  An execution of the transport is therefore a sequence of such segments: a caller runs
  \<^verbatim>\<open>method\<close> up to its \<^verbatim>\<open>await fut\<close>, the reader task takes the next line from the
  pipe and routes it (nothing reads the pipe once the task has ended), or a consumer runs
  \<^verbatim>\<open>wait_for_event\<close> (again, if it was suspended before).
\<close>

datatype action = Call string "json list" pydict | Line string | Wait int

datatype outcome = Called "error + int \<times> nat" | Read | Waited "json option awaited"

fun step :: "(string \<Rightarrow> error + json) \<Rightarrow> rpc \<Rightarrow> action \<Rightarrow> outcome \<times> rpc" where
  "step loads st (Call attr args kwargs) =
     (case method_call st attr args kwargs of (r, st1) \<Rightarrow> (Called r, st1))"
| "step loads st (Line line) =
     (Read, if reader_task st = Running then reader_iteration loads st line else st)"
| "step loads st (Wait account_id) =
     (case wait_for_event st account_id of (r, st1) \<Rightarrow> (Waited r, st1))"

fun exec :: "(string \<Rightarrow> error + json) \<Rightarrow> rpc \<Rightarrow> action list \<Rightarrow> rpc" where
  "exec loads st [] = st"
| "exec loads st (a # as) = exec loads (snd (step loads st a)) as"

text \<open>The events that the \<^verbatim>\<open>wait_for_event\<close> calls for one account returned, in order.\<close>

fun event_yielded :: "int \<Rightarrow> action \<Rightarrow> outcome \<Rightarrow> json list" where
  "event_yielded account_id (Wait b) (Waited (Returned (Some ev))) =
     (if b = account_id then [ev] else [])"
| "event_yielded account_id _ _ = []"

fun yielded :: "(string \<Rightarrow> error + json) \<Rightarrow> rpc \<Rightarrow> int \<Rightarrow> action list \<Rightarrow> json list" where
  "yielded loads st account_id [] = []"
| "yielded loads st account_id (a # as) =
     event_yielded account_id a (fst (step loads st a))
       @ yielded loads (snd (step loads st a)) account_id as"

text \<open>
  The wire's side of the event claims: the event that a line carries for an account, for
  a line that is an event notification
  \<^verbatim>\<open>{"method": "event", "params": {"contextId": c, "event": e}}\<close> without an
  \<^verbatim>\<open>id\<close>, and the events that a sequence of segments brings for the account.
\<close>

definition wire_event :: "(string \<Rightarrow> error + json) \<Rightarrow> int \<Rightarrow> string \<Rightarrow> json list" where
  "wire_event loads account_id line =
     (case loads line of
        Inr (JObj d) \<Rightarrow>
          if map_of d ''id'' = None \<and> map_of d ''method'' = Some (JStr ''event'')
          then (case map_of d ''params'' of
                  Some (JObj params) \<Rightarrow>
                    (case (map_of params ''contextId'', map_of params ''event'') of
                       (Some c, Some ev) \<Rightarrow>
                         if hashkey c = Inr (KInt account_id) then [ev] else []
                     | _ \<Rightarrow> [])
                | _ \<Rightarrow> [])
          else []
      | _ \<Rightarrow> [])"

fun arrived :: "(string \<Rightarrow> error + json) \<Rightarrow> int \<Rightarrow> action list \<Rightarrow> json list" where
  "arrived loads account_id [] = []"
| "arrived loads account_id (Line line # as) =
     wire_event loads account_id line @ arrived loads account_id as"
| "arrived loads account_id (_ # as) = arrived loads account_id as"

definition queue_of :: "rpc \<Rightarrow> int \<Rightarrow> json list" where
  "queue_of st account_id =
     (case event_queues st (KInt account_id) of None \<Rightarrow> [] | Some q \<Rightarrow> q)"

text \<open>The id that a decoded response carries, as the key the registry is asked for.\<close>

definition response_key :: "pydict \<Rightarrow> pykey option" where
  "response_key response =
     (case map_of response ''id'' of
        None \<Rightarrow> None
      | Some rid \<Rightarrow> (case hashkey rid of Inl e \<Rightarrow> None | Inr k \<Rightarrow> Some k))"

text \<open>
  The registry and the store fit together: every registered future exists and is
  pending, is registered under one key only, and its key is an id already handed out.
\<close>

definition registry_ok :: "rpc \<Rightarrow> bool" where
  "registry_ok st \<longleftrightarrow>
     (\<forall>k fut. request_events st k = Some fut \<longrightarrow>
        fut < length (futures st) \<and> futures st ! fut = Pending \<and>
        (\<exists>j. k = KInt j \<and> j \<le> id_counter st) \<and>
        (\<forall>k'. request_events st k' = Some fut \<longrightarrow> k' = k))"

text \<open>
  A call that was given the id \<open>i\<close> and the future \<open>fut\<close>: it is still registered, or it
  has been resolved by a response carrying its id and is registered no more.
\<close>

definition tracked :: "int \<Rightarrow> nat \<Rightarrow> rpc \<Rightarrow> bool" where
  "tracked i fut st \<longleftrightarrow>
     i \<le> id_counter st \<and>
     (request_events st (KInt i) = Some fut \<or>
      (request_events st (KInt i) = None \<and> fut < length (futures st) \<and>
       (\<exists>r. futures st ! fut = Result r \<and> response_key r = Some (KInt i))))"

text \<open>A key that no call can be registered under any more.\<close>

definition spent :: "pykey \<Rightarrow> rpc \<Rightarrow> bool" where
  "spent k st \<longleftrightarrow> request_events st k = None \<and> (\<forall>j. k = KInt j \<longrightarrow> j \<le> id_counter st)"

text \<open>
  An execution in which the child only answers: every line is a response carrying the id
  of a call that is outstanding when the line is read. \<open>n\<close> is the id counter and \<open>ids\<close>
  are the ids of the outstanding calls before the execution.
\<close>

fun answers :: "(string \<Rightarrow> error + json) \<Rightarrow> int \<Rightarrow> int list \<Rightarrow> action list \<Rightarrow> bool" where
  "answers loads n ids [] = True"
| "answers loads n ids (Call attr args kwargs # as) =
     answers loads (n + 1) (if args \<noteq> [] \<and> kwargs \<noteq> [] then ids else (n + 1) # ids) as"
| "answers loads n ids (Wait account_id # as) = answers loads n ids as"
| "answers loads n ids (Line line # as) =
     (line \<noteq> [] \<and>
      (case loads line of
         Inr (JObj response) \<Rightarrow>
           (case response_key response of
              Some (KInt i) \<Rightarrow> i \<in> set ids \<and> answers loads n (removeAll i ids) as
            | _ \<Rightarrow> False)
       | _ \<Rightarrow> False))"

text \<open>Lines of the concrete scenarios, each with the value it decodes to.\<close>

definition sample_responses :: "(string \<times> json) list" where
  \<open>sample_responses =
     [(''{"id": 1, "result": "a"}'', JObj [(''id'', JInt 1), (''result'', JStr ''a'')]),
      (''{"id": 2, "result": "b"}'', JObj [(''id'', JInt 2), (''result'', JStr ''b'')]),
      (''{"id": 3, "result": "c"}'', JObj [(''id'', JInt 3), (''result'', JStr ''c'')]),
      (''{"id": 1, "result": "z"}'', JObj [(''id'', JInt 1), (''result'', JStr ''z'')])]\<close>

definition sample_events :: "(string \<times> json) list" where
  \<open>sample_events =
     [(''{"method": "event", "params": {"contextId": 5, "event": "A"}}'',
       JObj [(''method'', JStr ''event''),
             (''params'', JObj [(''contextId'', JInt 5), (''event'', JStr ''A'')])]),
      (''{"method": "event", "params": {"contextId": 5, "event": "B"}}'',
       JObj [(''method'', JStr ''event''),
             (''params'', JObj [(''contextId'', JInt 5), (''event'', JStr ''B'')])]),
      (''{"method": "event", "params": {"contextId": 6, "event": "X"}}'',
       JObj [(''method'', JStr ''event''),
             (''params'', JObj [(''contextId'', JInt 6), (''event'', JStr ''X'')])])]\<close>

section \<open>Facts about the segments\<close>

lemmas route_unfold = handle_response_def handle_event_def set_result_def Let_def response_key_def

lemma route_registry:
  "route st v = (err, st1) \<Longrightarrow> request_events st1 k = None \<or> request_events st1 k = request_events st k"
  by (cases v) (auto simp: route_unfold split: option.splits sum.splits if_splits)

lemma route_id_counter:
  "route st v = (err, st1) \<Longrightarrow> id_counter st1 = id_counter st"
  by (cases v) (auto simp: route_unfold split: option.splits sum.splits if_splits)

lemma route_reader_task:
  "route st v = (err, st1) \<Longrightarrow> reader_task st1 = reader_task st"
  by (cases v) (auto simp: route_unfold split: option.splits sum.splits if_splits)

lemma route_futures:
  "route st v = (err, st1) \<Longrightarrow>
     futures st1 = futures st \<and> (err = None \<longrightarrow> request_events st1 = request_events st) \<or>
     (\<exists>response k fut. v = JObj response \<and> response_key response = Some k \<and>
        request_events st k = Some fut \<and>
        request_events st1 = (request_events st)(k := None) \<and>
        (err = None \<longrightarrow> fut < length (futures st) \<and> futures st ! fut = Pending \<and>
        futures st1 = (futures st)[fut := Result response]) \<and> (err \<noteq> None \<longrightarrow> futures st1 = futures st))"
  by (cases v) (auto simp: route_unfold split: option.splits sum.splits if_splits)

lemma route_unregistered:
  "response_key response = Some k \<Longrightarrow> request_events st k = None \<Longrightarrow>
     route st (JObj response) = (Some KeyError, st)"
  by (auto simp: route_unfold split: option.splits sum.splits)

lemma route_registered:
  "response_key response = Some k \<Longrightarrow> request_events st k = Some fut \<Longrightarrow>
   fut < length (futures st) \<Longrightarrow> futures st ! fut = Pending \<Longrightarrow>
     route st (JObj response) =
       (None, st\<lparr>request_events := (request_events st)(k := None),
                 futures := (futures st)[fut := Result response]\<rparr>)"
  by (auto simp: route_unfold split: option.splits sum.splits)

lemma reader_iteration_running:
  "reader_task (reader_iteration loads st line) = Running \<Longrightarrow>
     reader_task st = Running \<and> line \<noteq> [] \<and>
     (\<exists>v. loads line = Inr v \<and> route st v = (None, reader_iteration loads st line))"
  by (auto simp: reader_iteration_def split: if_splits sum.splits option.splits prod.splits
      dest: route_reader_task)

lemma reader_iteration_route:
  "\<exists>err st1 v. (line = [] \<and> st1 = st \<or> (\<exists>e. loads line = Inl e) \<and> st1 = st \<or> loads line = Inr v \<and> route st v = (err, st1)) \<and>
     id_counter (reader_iteration loads st line) = id_counter st1 \<and>
     request_events (reader_iteration loads st line) = request_events st1 \<and>
     futures (reader_iteration loads st line) = futures st1 \<and>
     event_queues (reader_iteration loads st line) = event_queues st1"
  by (auto simp: reader_iteration_def split: if_splits sum.splits option.splits prod.splits)

lemma method_Inr:
  "method_call st attr args kwargs = (Inr (i, fut), st1) \<Longrightarrow>
     i = id_counter st + 1 \<and> fut = length (futures st) \<and> id_counter st1 = i \<and>
     futures st1 = futures st @ [Pending] \<and>
     request_events st1 = (request_events st)(KInt i \<mapsto> fut) \<and>
     reader_task st1 = reader_task st \<and> event_queues st1 = event_queues st"
  by (auto simp: method_call_def Let_def split: if_splits)

lemma method_Inl:
  "method_call st attr args kwargs = (Inl e, st1) \<Longrightarrow>
     e = AssertionError \<and> st1 = st\<lparr>id_counter := id_counter st + 1\<rparr>"
  by (auto simp: method_call_def Let_def split: if_splits)

lemma wait_for_event_fields:
  "wait_for_event st a = (r, st1) \<Longrightarrow>
     id_counter st1 = id_counter st \<and> request_events st1 = request_events st \<and>
     futures st1 = futures st \<and> reader_task st1 = reader_task st"
  by (auto simp: wait_for_event_def split: option.splits list.splits)

lemma registry_ok_start: "registry_ok start"
  by (simp add: registry_ok_def start_def)

lemma registry_okD:
  "registry_ok st \<Longrightarrow> request_events st k = Some fut \<Longrightarrow>
     fut < length (futures st) \<and> futures st ! fut = Pending \<and>
     (\<exists>j. k = KInt j \<and> j \<le> id_counter st) \<and>
     (\<forall>k'. request_events st k' = Some fut \<longrightarrow> k' = k)"
  unfolding registry_ok_def by blast

lemma registry_okI:
  "(\<And>k fut. request_events st k = Some fut \<Longrightarrow>
     fut < length (futures st) \<and> futures st ! fut = Pending \<and>
     (\<exists>j. k = KInt j \<and> j \<le> id_counter st) \<and>
     (\<forall>k'. request_events st k' = Some fut \<longrightarrow> k' = k)) \<Longrightarrow> registry_ok st"
  unfolding registry_ok_def by blast

lemma registry_ok_method:
  assumes "registry_ok st" shows "registry_ok (snd (method_call st attr args kwargs))"
proof (cases "method_call st attr args kwargs")
  case (Pair r st1)
  show ?thesis
  proof (cases r)
    case (Inl e)
    with Pair have st1: "st1 = st\<lparr>id_counter := id_counter st + 1\<rparr>" by (simp add: method_Inl)
    show ?thesis unfolding Pair snd_conv
    proof (rule registry_okI)
      fix k fut assume "request_events st1 k = Some fut"
      then have "request_events st k = Some fut" by (simp add: st1)
      from registry_okD [OF assms this] show "fut < length (futures st1) \<and> futures st1 ! fut = Pending \<and>
     (\<exists>j. k = KInt j \<and> j \<le> id_counter st1) \<and>
     (\<forall>k'. request_events st1 k' = Some fut \<longrightarrow> k' = k)"
        by (auto simp: st1)
    qed
  next
    case (Inr p)
    obtain i fut where p: "p = (i, fut)" by (cases p)
    note m = method_Inr [OF Pair [unfolded Inr p]]
    from m have mi: "id_counter st1 = id_counter st + 1" by simp
    from m have mf: "futures st1 = futures st @ [Pending]" by simp
    from m have mr: "request_events st1 = (request_events st)(KInt (id_counter st + 1) \<mapsto> length (futures st))"
      by simp
    have fresh: "request_events st k \<noteq> Some (length (futures st))" for k
      using registry_okD [OF assms, of k "length (futures st)"] by auto
    show ?thesis unfolding Pair snd_conv
    proof (rule registry_okI)
      fix k f assume kf: "request_events st1 k = Some f"
      show "f < length (futures st1) \<and> futures st1 ! f = Pending \<and>
        (\<exists>j. k = KInt j \<and> j \<le> id_counter st1) \<and> (\<forall>k'. request_events st1 k' = Some f \<longrightarrow> k' = k)"
      proof (cases "k = KInt (id_counter st + 1)")
        case True
        with kf have f: "f = length (futures st)" by (simp add: mr)
        have "\<forall>k'. request_events st1 k' = Some f \<longrightarrow> k' = k"
          using fresh by (simp add: mr f True)
        then show ?thesis by (simp add: f mf mi True)
      next
        case False
        with kf have o: "request_events st k = Some f" by (simp add: mr)
        note d = registry_okD [OF assms o]
        from d have 1: "f < length (futures st1) \<and> futures st1 ! f = Pending"
          by (simp add: mf nth_append)
        from d have 2: "\<exists>j. k = KInt j \<and> j \<le> id_counter st1"
          by (auto simp: mi)
        from d have "f \<noteq> length (futures st)" by simp
        with d have 3: "\<forall>k'. request_events st1 k' = Some f \<longrightarrow> k' = k"
          by (simp add: mr)
        from 1 2 3 show ?thesis by blast
      qed
    qed
  qed
qed

lemma method_ok:
  "\<not> (args \<noteq> [] \<and> kwargs \<noteq> []) \<Longrightarrow>
     method_call st attr args kwargs =
       (Inr (id_counter st + 1, length (futures st)),
        st\<lparr>id_counter := id_counter st + 1,
           stdin := stdin st @ dumps (JObj [(''jsonrpc'', JStr ''2.0''), (''method'', JStr attr),
                      (''params'', if kwargs \<noteq> [] then JObj kwargs else JArr args),
                      (''id'', JInt (id_counter st + 1))]) @ [CHR 0x0A],
           futures := futures st @ [Pending],
           request_events := (request_events st)(KInt (id_counter st + 1) \<mapsto> length (futures st))\<rparr>)"
  by (simp add: method_call_def Let_def)

lemma resolve_step:
  assumes "line \<noteq> []" and "loads line = Inr (JObj response)"
    and "response_key response = Some k"
    and "request_events st k = Some fut"
    and "fut < length (futures st)" and "futures st ! fut = Pending"
  shows "reader_iteration loads st line =
           st\<lparr>request_events := (request_events st)(k := None),
              futures := (futures st)[fut := Result response]\<rparr>"
  using assms by (simp add: reader_iteration_def route_registered del: route.simps)

lemma get_info_request:
  \<open>dumps (JObj [(''jsonrpc'', JStr ''2.0''), (''method'', JStr ''get_info''),
      (''params'', JArr []), (''id'', JInt 1)])
   = ''{"jsonrpc": "2.0", "method": "get_info", "params": [], "id": 1}''\<close>
  by code_simp

lemma registry_ok_route:
  assumes ok: "registry_ok st" and r: "route st v = (err, st1)"
  shows "registry_ok st1"
proof (rule registry_okI)
  fix k fut assume kf: "request_events st1 k = Some fut"
  have idc: "id_counter st1 = id_counter st" using r by (rule route_id_counter)
  from route_registry [OF r, of k] kf have o: "request_events st k = Some fut" by auto
  note d = registry_okD [OF ok o]
  have sub: "\<And>k'. request_events st1 k' = Some fut \<Longrightarrow> request_events st k' = Some fut"
    using route_registry [OF r] by (metis option.distinct(1))
  from route_futures [OF r]
  have f: "fut < length (futures st1) \<and> futures st1 ! fut = Pending"
  proof
    assume "futures st1 = futures st \<and> (err = None \<longrightarrow> request_events st1 = request_events st)"
    with d show ?thesis by simp
  next
    assume "\<exists>response k fut. v = JObj response \<and> response_key response = Some k \<and>
        request_events st k = Some fut \<and>
        request_events st1 = (request_events st)(k := None) \<and>
        (err = None \<longrightarrow> fut < length (futures st) \<and> futures st ! fut = Pending \<and>
        futures st1 = (futures st)[fut := Result response]) \<and> (err \<noteq> None \<longrightarrow> futures st1 = futures st)"
    then obtain response k0 fut0 where
      k0: "request_events st k0 = Some fut0" and
      reg: "request_events st1 = (request_events st)(k0 := None)" and
      fs: "err = None \<longrightarrow> futures st1 = (futures st)[fut0 := Result response]" and
      fs': "err \<noteq> None \<longrightarrow> futures st1 = futures st"
      by blast
    from kf reg have "k \<noteq> k0" by auto
    with d k0 have "fut \<noteq> fut0" by auto
    with d fs fs' show ?thesis by (cases err) auto
  qed
  from d sub have u: "\<forall>k'. request_events st1 k' = Some fut \<longrightarrow> k' = k" by blast
  from d have j: "\<exists>j. k = KInt j \<and> j \<le> id_counter st1" by (simp add: idc)
  from f j u show "fut < length (futures st1) \<and> futures st1 ! fut = Pending \<and>
     (\<exists>j. k = KInt j \<and> j \<le> id_counter st1) \<and>
     (\<forall>k'. request_events st1 k' = Some fut \<longrightarrow> k' = k)" by blast
qed

lemma registry_ok_fields:
  "registry_ok st \<Longrightarrow> id_counter st1 = id_counter st \<Longrightarrow> request_events st1 = request_events st \<Longrightarrow>
   futures st1 = futures st \<Longrightarrow> registry_ok st1"
  by (simp add: registry_ok_def)

lemma registry_ok_reader_iteration:
  assumes "registry_ok st" shows "registry_ok (reader_iteration loads st line)"
proof -
  obtain err st1 v where
    c: "line = [] \<and> st1 = st \<or> (\<exists>e. loads line = Inl e) \<and> st1 = st \<or> loads line = Inr v \<and> route st v = (err, st1)"
    and f: "id_counter (reader_iteration loads st line) = id_counter st1"
     "request_events (reader_iteration loads st line) = request_events st1"
     "futures (reader_iteration loads st line) = futures st1"
    using reader_iteration_route [of line st loads] by blast
  from c assms have "registry_ok st1" by (auto intro: registry_ok_route)
  then show ?thesis using f by (rule registry_ok_fields)
qed

lemma registry_ok_step:
  assumes "registry_ok st" shows "registry_ok (snd (step loads st a))"
proof (cases a)
  case (Call attr args kwargs)
  with registry_ok_method [OF assms, of attr args kwargs] show ?thesis
    by (cases "method_call st attr args kwargs") simp
next
  case (Line line)
  with assms show ?thesis by (simp add: registry_ok_reader_iteration)
next
  case (Wait b)
  obtain r st1 where w: "wait_for_event st b = (r, st1)" by (cases "wait_for_event st b")
  from wait_for_event_fields [OF w] assms have "registry_ok st1"
    by (intro registry_ok_fields [of st st1]) simp_all
  with Wait w show ?thesis by simp
qed

lemma registry_ok_exec:
  "registry_ok st \<Longrightarrow> registry_ok (exec loads st acts)"
  by (induction acts arbitrary: st) (simp_all add: registry_ok_step)

lemma step_running:
  "reader_task (snd (step loads st a)) = Running \<Longrightarrow> reader_task st = Running"
proof (cases a)
  case (Call attr args kwargs)
  assume "reader_task (snd (step loads st a)) = Running"
  with Call show ?thesis
    by (cases "method_call st attr args kwargs") (auto simp: method_call_def Let_def split: if_splits)
next
  case (Line line)
  assume "reader_task (snd (step loads st a)) = Running"
  with Line show ?thesis by (auto split: if_splits)
next
  case (Wait b)
  assume "reader_task (snd (step loads st a)) = Running"
  with Wait show ?thesis
    by (cases "wait_for_event st b") (auto dest: wait_for_event_fields)
qed

lemma exec_running:
  "reader_task (exec loads st acts) = Running \<Longrightarrow> reader_task st = Running"
  by (induction acts arbitrary: st) (auto dest: step_running)

lemma exec_append:
  "exec loads st (as @ bs) = exec loads (exec loads st as) bs"
  by (induction as arbitrary: st) simp_all

lemma step_id_counter:
  "id_counter st \<le> id_counter (snd (step loads st a))"
proof (cases a)
  case (Call attr args kwargs)
  then show ?thesis by (simp add: method_call_def Let_def)
next
  case (Line line)
  then show ?thesis using reader_iteration_route [of line st loads]
    by (auto dest: route_id_counter)
next
  case (Wait b)
  then show ?thesis by (cases "wait_for_event st b") (auto dest: wait_for_event_fields)
qed

lemma route_cases:
  "route st v = (err, st1) \<Longrightarrow>
     (futures st1 = futures st \<and> request_events st1 = request_events st) \<or>
     (\<exists>response k fut. v = JObj response \<and> response_key response = Some k \<and>
        request_events st k = Some fut \<and>
        request_events st1 = (request_events st)(k := None) \<and>
        (fut < length (futures st) \<and> futures st ! fut = Pending \<longrightarrow>
           err = None \<and> futures st1 = (futures st)[fut := Result response]) \<and>
        (\<not> (fut < length (futures st) \<and> futures st ! fut = Pending) \<longrightarrow>
           err = Some InvalidStateError \<and> futures st1 = futures st))"
  by (cases v) (auto simp: route_unfold split: option.splits sum.splits if_splits)

lemma route_response_ok:
  "route st (JObj response) = (None, st1) \<Longrightarrow> response_key response = Some k \<Longrightarrow>
     \<exists>fut. request_events st k = Some fut \<and> fut < length (futures st) \<and>
       futures st ! fut = Pending \<and>
       st1 = st\<lparr>request_events := (request_events st)(k := None),
                 futures := (futures st)[fut := Result response]\<rparr>"
  by (auto simp: route_unfold split: option.splits sum.splits if_splits)

lemma step_effect:
  "(id_counter (snd (step loads st a)) = id_counter st + 1 \<and>
    request_events (snd (step loads st a)) = request_events st \<and>
    futures (snd (step loads st a)) = futures st) \<or>
   (id_counter (snd (step loads st a)) = id_counter st + 1 \<and>
    request_events (snd (step loads st a)) =
      (request_events st)(KInt (id_counter st + 1) \<mapsto> length (futures st)) \<and>
    futures (snd (step loads st a)) = futures st @ [Pending]) \<or>
   (id_counter (snd (step loads st a)) = id_counter st \<and>
    request_events (snd (step loads st a)) = request_events st \<and>
    futures (snd (step loads st a)) = futures st) \<or>
   (id_counter (snd (step loads st a)) = id_counter st \<and>
    (\<exists>response k fut. response_key response = Some k \<and>
       request_events st k = Some fut \<and>
       request_events (snd (step loads st a)) = (request_events st)(k := None) \<and>
       (fut < length (futures st) \<and> futures st ! fut = Pending \<longrightarrow>
          futures (snd (step loads st a)) = (futures st)[fut := Result response]) \<and>
       (\<not> (fut < length (futures st) \<and> futures st ! fut = Pending) \<longrightarrow>
          futures (snd (step loads st a)) = futures st)))"
proof (cases a)
  case (Call attr args kwargs)
  then show ?thesis by (simp add: method_call_def Let_def)
next
  case (Line line)
  show ?thesis
  proof (cases "reader_task st = Running")
    case False
    with Line show ?thesis by simp
  next
    case True
    obtain err st1 v where
      c: "line = [] \<and> st1 = st \<or> (\<exists>e. loads line = Inl e) \<and> st1 = st \<or>
          loads line = Inr v \<and> route st v = (err, st1)"
      and f: "id_counter (reader_iteration loads st line) = id_counter st1"
        "request_events (reader_iteration loads st line) = request_events st1"
        "futures (reader_iteration loads st line) = futures st1"
      using reader_iteration_route [of line st loads] by blast
    from c consider "st1 = st" | "route st v = (err, st1)" by blast
    then show ?thesis
    proof cases
      case 1
      with Line True f show ?thesis by simp
    next
      case 2
      from route_id_counter [OF 2] have i: "id_counter st1 = id_counter st" .
      from route_cases [OF 2] show ?thesis
      proof
        assume "futures st1 = futures st \<and> request_events st1 = request_events st"
        with Line True f i show ?thesis by simp
      next
        assume "\<exists>response k fut. v = JObj response \<and> response_key response = Some k \<and>
          request_events st k = Some fut \<and>
          request_events st1 = (request_events st)(k := None) \<and>
          (fut < length (futures st) \<and> futures st ! fut = Pending \<longrightarrow>
             err = None \<and> futures st1 = (futures st)[fut := Result response]) \<and>
          (\<not> (fut < length (futures st) \<and> futures st ! fut = Pending) \<longrightarrow>
             err = Some InvalidStateError \<and> futures st1 = futures st)"
        then obtain response k fut where
          "response_key response = Some k" "request_events st k = Some fut"
          "request_events st1 = (request_events st)(k := None)"
          "fut < length (futures st) \<and> futures st ! fut = Pending \<longrightarrow>
             futures st1 = (futures st)[fut := Result response]"
          "\<not> (fut < length (futures st) \<and> futures st ! fut = Pending) \<longrightarrow>
             futures st1 = futures st"
          by blast
        then have "\<exists>response k fut. response_key response = Some k \<and>
          request_events st k = Some fut \<and>
          request_events st1 = (request_events st)(k := None) \<and>
          (fut < length (futures st) \<and> futures st ! fut = Pending \<longrightarrow>
             futures st1 = (futures st)[fut := Result response]) \<and>
          (\<not> (fut < length (futures st) \<and> futures st ! fut = Pending) \<longrightarrow>
             futures st1 = futures st)" by blast
        with Line True f i show ?thesis by simp
      qed
    qed
  qed
next
  case (Wait b)
  then show ?thesis
    by (cases "wait_for_event st b") (auto dest: wait_for_event_fields)
qed

lemma tracked_step:
  assumes ok: "registry_ok st" and t: "tracked i fut st"
  shows "tracked i fut (snd (step loads st a))"
proof -
  let ?st1 = "snd (step loads st a)"
  from t have le: "i \<le> id_counter st" by (simp add: tracked_def)
  from t consider
      (reg) "request_events st (KInt i) = Some fut"
    | (res) r where "request_events st (KInt i) = None" "fut < length (futures st)"
        "futures st ! fut = Result r" "response_key r = Some (KInt i)"
    by (auto simp: tracked_def)
  note shape = this
  from step_effect [of loads st a] consider
      (failed) "id_counter ?st1 = id_counter st + 1" "request_events ?st1 = request_events st"
        "futures ?st1 = futures st"
    | (called) "id_counter ?st1 = id_counter st + 1"
        "request_events ?st1 = (request_events st)(KInt (id_counter st + 1) \<mapsto> length (futures st))"
        "futures ?st1 = futures st @ [Pending]"
    | (same) "id_counter ?st1 = id_counter st" "request_events ?st1 = request_events st"
        "futures ?st1 = futures st"
    | (popped) response k f where "id_counter ?st1 = id_counter st"
        "response_key response = Some k" "request_events st k = Some f"
        "request_events ?st1 = (request_events st)(k := None)"
        "f < length (futures st) \<and> futures st ! f = Pending \<longrightarrow>
           futures ?st1 = (futures st)[f := Result response]"
    by blast
  then show ?thesis
  proof cases
    case failed
    with t show ?thesis by (auto simp: tracked_def)
  next
    case called
    from le have ne: "KInt i \<noteq> KInt (id_counter st + 1)" by simp
    from le called have le1: "i \<le> id_counter ?st1" by simp
    from called ne have r1: "request_events ?st1 (KInt i) = request_events st (KInt i)" by simp
    from shape show ?thesis
    proof cases
      case reg
      with le1 r1 show ?thesis by (simp add: tracked_def)
    next
      case res
      with called have "fut < length (futures ?st1)" "futures ?st1 ! fut = Result r"
        by (simp_all add: nth_append)
      with le1 r1 res show ?thesis by (simp add: tracked_def)
    qed
  next
    case same
    with t show ?thesis by (simp add: tracked_def)
  next
    case popped
    from registry_okD [OF ok popped(3)] have fp: "f < length (futures st)" "futures st ! f = Pending"
      by simp_all
    with popped have fs: "futures ?st1 = (futures st)[f := Result response]" by simp
    from le popped have le1: "i \<le> id_counter ?st1" by simp
    show ?thesis
    proof (cases "k = KInt i")
      case True
      with popped shape have "f = fut" by (cases) auto
      with fp fs popped True le1 show ?thesis by (simp add: tracked_def)
    next
      case False
      with popped have r1: "request_events ?st1 (KInt i) = request_events st (KInt i)" by simp
      from shape show ?thesis
      proof cases
        case reg
        with le1 r1 show ?thesis by (simp add: tracked_def)
      next
        case res
        with fp have "fut \<noteq> f" by auto
        with res fs have "fut < length (futures ?st1)" "futures ?st1 ! fut = Result r" by simp_all
        with le1 r1 res show ?thesis by (simp add: tracked_def)
      qed
    qed
  qed
qed

lemma tracked_exec:
  "registry_ok st \<Longrightarrow> tracked i fut st \<Longrightarrow> tracked i fut (exec loads st acts)"
  by (induction acts arbitrary: st) (simp_all add: registry_ok_step tracked_step)

lemma result_stable_step:
  assumes ok: "registry_ok st" and lt: "fut < length (futures st)"
    and r: "futures st ! fut = Result response"
  shows "fut < length (futures (snd (step loads st a))) \<and>
         futures (snd (step loads st a)) ! fut = Result response"
proof -
  let ?st1 = "snd (step loads st a)"
  from step_effect [of loads st a] consider
      (same) "futures ?st1 = futures st"
    | (called) "futures ?st1 = futures st @ [Pending]"
    | (popped) resp k f where "request_events st k = Some f"
        "f < length (futures st) \<and> futures st ! f = Pending \<longrightarrow>
           futures ?st1 = (futures st)[f := Result resp]"
    by blast
  then show ?thesis
  proof cases
    case same
    with lt r show ?thesis by simp
  next
    case called
    with lt r show ?thesis by (simp add: nth_append)
  next
    case popped
    from registry_okD [OF ok popped(1)] have fp: "f < length (futures st)" "futures st ! f = Pending"
      by simp_all
    with r have "fut \<noteq> f" by auto
    with popped fp lt r show ?thesis by simp
  qed
qed

lemma result_stable_exec:
  "registry_ok st \<Longrightarrow> fut < length (futures st) \<Longrightarrow> futures st ! fut = Result response \<Longrightarrow>
     fut < length (futures (exec loads st acts)) \<and>
     futures (exec loads st acts) ! fut = Result response"
proof (induction acts arbitrary: st)
  case Nil
  then show ?case by simp
next
  case (Cons a acts)
  from result_stable_step [OF Cons.prems, of loads a] registry_ok_step [OF Cons.prems(1), of loads a]
  show ?case using Cons.IH [of "snd (step loads st a)"] by simp
qed

lemma spent_step:
  assumes "spent k st" shows "spent k (snd (step loads st a))"
proof -
  let ?st1 = "snd (step loads st a)"
  from assms have n: "request_events st k = None" and b: "\<forall>j. k = KInt j \<longrightarrow> j \<le> id_counter st"
    by (simp_all add: spent_def)
  from step_effect [of loads st a] consider
      (failed) "id_counter ?st1 = id_counter st + 1" "request_events ?st1 = request_events st"
    | (called) "id_counter ?st1 = id_counter st + 1"
        "request_events ?st1 = (request_events st)(KInt (id_counter st + 1) \<mapsto> length (futures st))"
    | (same) "id_counter ?st1 = id_counter st" "request_events ?st1 = request_events st"
    | (popped) k' where "id_counter ?st1 = id_counter st"
        "request_events ?st1 = (request_events st)(k' := None)"
    by blast
  then show ?thesis
  proof cases
    case failed
    with n b show ?thesis by (auto simp: spent_def)
  next
    case called
    from b have "k \<noteq> KInt (id_counter st + 1)" by auto
    with called n b show ?thesis by (auto simp: spent_def)
  next
    case same
    with n b show ?thesis by (simp add: spent_def)
  next
    case popped
    with n b show ?thesis by (simp add: spent_def)
  qed
qed

lemma spent_exec: "spent k st \<Longrightarrow> spent k (exec loads st acts)"
  by (induction acts arbitrary: st) (simp_all add: spent_step)

lemma exec_id_counter: "id_counter st \<le> id_counter (exec loads st acts)"
proof (induction acts arbitrary: st)
  case Nil
  show ?case by simp
next
  case (Cons a acts)
  from step_id_counter [of st loads a] Cons [of "snd (step loads st a)"] show ?case by simp
qed

lemma exec_futures_length: "length (futures st) \<le> length (futures (exec loads st acts))"
proof (induction acts arbitrary: st)
  case Nil
  show ?case by simp
next
  case (Cons a acts)
  have "length (futures st) \<le> length (futures (snd (step loads st a)))"
    using step_effect [of loads st a] by auto
  with Cons [of "snd (step loads st a)"] show ?case by simp
qed

lemma line_processed:
  assumes run: "reader_task (snd (step loads st (Line line))) = Running"
    and l: "loads line = Inr (JObj response)" and k: "response_key response = Some k"
  shows "\<exists>fut. request_events st k = Some fut \<and> fut < length (futures st) \<and>
           futures st ! fut = Pending \<and>
           snd (step loads st (Line line)) =
             st\<lparr>request_events := (request_events st)(k := None),
                futures := (futures st)[fut := Result response]\<rparr>"
proof -
  from run have r0: "reader_task st = Running" by (rule step_running)
  with run have "reader_task (reader_iteration loads st line) = Running" by simp
  from reader_iteration_running [OF this] l
  have "route st (JObj response) = (None, reader_iteration loads st line)" by auto
  from route_response_ok [OF this k] r0 show ?thesis by simp
qed

lemma resolved_in_suffix:
  assumes "registry_ok st" and "tracked i fut st"
    and "Line line \<in> set acts" and "loads line = Inr (JObj response)"
    and "response_key response = Some (KInt i)"
    and "reader_task (exec loads st acts) = Running"
  shows "fut < length (futures (exec loads st acts)) \<and>
         futures (exec loads st acts) ! fut = Result response"
  using assms
proof (induction acts arbitrary: st)
  case Nil
  then show ?case by simp
next
  case (Cons a acts)
  let ?st1 = "snd (step loads st a)"
  from Cons.prems(6) have run1: "reader_task ?st1 = Running" by (auto dest: exec_running)
  have ok1: "registry_ok ?st1" using Cons.prems(1) by (rule registry_ok_step)
  show ?case
  proof (cases "a = Line line")
    case True
    from line_processed [OF run1 [unfolded True] Cons.prems(4,5)]
    obtain f where f: "request_events st (KInt i) = Some f" "f < length (futures st)"
      and st1: "snd (step loads st (Line line)) =
             st\<lparr>request_events := (request_events st)(KInt i := None),
                futures := (futures st)[f := Result response]\<rparr>"
      by blast
    from Cons.prems(2) f have "f = fut" by (auto simp: tracked_def)
    with f st1 True have "fut < length (futures ?st1)" "futures ?st1 ! fut = Result response"
      by simp_all
    from result_stable_exec [OF ok1 this, of loads acts] show ?thesis by simp
  next
    case False
    with Cons.prems(3) have "Line line \<in> set acts" by simp
    from Cons.IH [OF ok1 tracked_step [OF Cons.prems(1,2)] this Cons.prems(4,5)] Cons.prems(6)
    show ?thesis by simp
  qed
qed

lemma line_id_bound:
  assumes "registry_ok st"
    and "Line line \<in> set acts" and "loads line = Inr (JObj response)"
    and "response_key response = Some (KInt i)"
    and "reader_task (exec loads st acts) = Running"
  shows "i \<le> id_counter (exec loads st acts)"
  using assms
proof (induction acts arbitrary: st)
  case Nil
  then show ?case by simp
next
  case (Cons a acts)
  let ?st1 = "snd (step loads st a)"
  from Cons.prems(5) have run1: "reader_task ?st1 = Running" by (auto dest: exec_running)
  have ok1: "registry_ok ?st1" using Cons.prems(1) by (rule registry_ok_step)
  show ?case
  proof (cases "a = Line line")
    case True
    from line_processed [OF run1 [unfolded True] Cons.prems(3,4)]
    obtain f where f: "request_events st (KInt i) = Some f" by blast
    from registry_okD [OF Cons.prems(1) f] have "i \<le> id_counter st" by auto
    also have "\<dots> \<le> id_counter ?st1" by (rule step_id_counter)
    also have "\<dots> \<le> id_counter (exec loads ?st1 acts)" by (rule exec_id_counter)
    finally show ?thesis by simp
  next
    case False
    with Cons.prems(2) have "Line line \<in> set acts" by simp
    from Cons.IH [OF ok1 this Cons.prems(3,4)] Cons.prems(5) show ?thesis by simp
  qed
qed

lemma tracked_after_call:
  assumes ok: "registry_ok st" and c: "fst (method_call st attr args kwargs) = Inr (i, fut)"
  shows "tracked i fut (snd (method_call st attr args kwargs)) \<and> i = id_counter st + 1 \<and>
         fut = length (futures st) \<and>
         reader_task (snd (method_call st attr args kwargs)) = reader_task st"
proof -
  from c have "method_call st attr args kwargs = (Inr (i, fut), snd (method_call st attr args kwargs))"
    by (metis prod.collapse)
  from method_Inr [OF this] show ?thesis by (simp add: tracked_def)
qed

lemmas eval_defs = loads_table_def reader_iteration_def handle_response_def set_result_def
  start_def method_call_def Let_def await_fut_def method_result_def response_key_def

lemma route_event_queue:
  "route st v = (None, st1) \<Longrightarrow> loads line = Inr v \<Longrightarrow>
     event_queues st1 (KInt a) =
       (if wire_event loads a line = [] then event_queues st (KInt a)
        else Some (queue_of st a @ wire_event loads a line))"
  by (cases v)
    (auto simp: route_unfold wire_event_def queue_of_def
      split: option.splits sum.splits if_splits json.splits)

lemma line_event_queue:
  assumes "reader_task (snd (step loads st (Line line))) = Running"
  shows "event_queues (snd (step loads st (Line line))) (KInt a) =
       (if wire_event loads a line = [] then event_queues st (KInt a)
        else Some (queue_of st a @ wire_event loads a line))"
proof -
  from assms have r0: "reader_task st = Running" by (rule step_running)
  with assms have "reader_task (reader_iteration loads st line) = Running" by simp
  from reader_iteration_running [OF this] obtain v where
    "loads line = Inr v" "route st v = (None, reader_iteration loads st line)" by blast
  from route_event_queue [where loads = loads and line = line, OF this(2,1)] r0
  show ?thesis by simp
qed

lemma line_queue_of:
  assumes "reader_task (snd (step loads st (Line line))) = Running"
  shows "queue_of (snd (step loads st (Line line))) a = queue_of st a @ wire_event loads a line"
  using line_event_queue [OF assms, of a] by (simp add: queue_of_def)

lemma method_event_queues:
  "event_queues (snd (method_call st attr args kwargs)) = event_queues st"
  by (simp add: method_call_def Let_def)

lemma wait_queue_of:
  "event_yielded a (Wait b) (Waited (fst (wait_for_event st b))) @ queue_of (snd (wait_for_event st b)) a
     = queue_of st a"
  by (auto simp: wait_for_event_def queue_of_def split: option.splits list.splits)

lemma wait_other_queue:
  "a \<noteq> b \<Longrightarrow> event_queues (snd (wait_for_event st b)) (KInt a) = event_queues st (KInt a)"
  by (auto simp: wait_for_event_def split: option.splits list.splits)

lemma step_queue_of:
  assumes "reader_task (snd (step loads st x)) = Running"
  shows "event_yielded a x (fst (step loads st x)) @ queue_of (snd (step loads st x)) a
           = queue_of st a @ arrived loads a [x]"
proof (cases x)
  case (Call attr args kwargs)
  then show ?thesis
    using method_event_queues [of st attr args kwargs]
    by (cases "method_call st attr args kwargs") (simp add: queue_of_def)
next
  case (Line line)
  with line_queue_of [OF assms [unfolded Line], of a] show ?thesis by simp
next
  case (Wait b)
  with wait_queue_of [of a b st] show ?thesis
    by (cases "wait_for_event st b") simp
qed

lemma arrived_Cons: "arrived loads a (x # xs) = arrived loads a [x] @ arrived loads a xs"
  by (cases x) simp_all

lemmas eval_event_defs = handle_event_def wait_for_event_def wire_event_def queue_of_def

lemma wire_event_shape:
  assumes "wire_event loads a line = [ev]"
  shows "\<exists>d params c. loads line = Inr (JObj d) \<and> map_of d ''id'' = None \<and>
           map_of d ''method'' = Some (JStr ''event'') \<and>
           map_of d ''params'' = Some (JObj params) \<and>
           map_of params ''contextId'' = Some c \<and> map_of params ''event'' = Some ev \<and>
           hashkey c = Inr (KInt a)"
  using assms
  by (auto simp: wire_event_def split: sum.splits json.splits option.splits if_splits)

lemma event_enqueued:
  assumes "line \<noteq> []" and "wire_event loads a line = [ev]"
  shows "event_queues (reader_iteration loads st line) (KInt a) = Some (queue_of st a @ [ev])"
proof -
  from wire_event_shape [OF assms(2)] obtain d params c where
    "loads line = Inr (JObj d)" "map_of d ''id'' = None"
    "map_of d ''method'' = Some (JStr ''event'')" "map_of d ''params'' = Some (JObj params)"
    "map_of params ''contextId'' = Some c" "map_of params ''event'' = Some ev"
    "hashkey c = Inr (KInt a)"
    by blast
  with assms(1) show ?thesis
    by (simp add: reader_iteration_def handle_event_def queue_of_def split: option.splits)
qed

lemma no_queue_exec:
  "reader_task (exec loads st acts) = Running \<Longrightarrow> arrived loads a acts = [] \<Longrightarrow>
   event_queues st (KInt a) = None \<Longrightarrow> event_queues (exec loads st acts) (KInt a) = None"
proof (induction acts arbitrary: st)
  case Nil
  then show ?case by simp
next
  case (Cons x xs)
  let ?st1 = "snd (step loads st x)"
  from Cons.prems(1) have run1: "reader_task ?st1 = Running" by (auto dest: exec_running)
  from Cons.prems(2) have ax: "arrived loads a [x] = []" and axs: "arrived loads a xs = []"
    using arrived_Cons [of loads a x xs] by simp_all
  have "event_queues ?st1 (KInt a) = None"
  proof (cases x)
    case (Call attr args kwargs)
    with Cons.prems(3) method_event_queues [of st attr args kwargs] show ?thesis
      by (cases "method_call st attr args kwargs") simp
  next
    case (Line line)
    with ax line_event_queue [OF run1 [unfolded Line], of a] Cons.prems(3) show ?thesis by simp
  next
    case (Wait b)
    with Cons.prems(3) show ?thesis
      by (cases "wait_for_event st b") (auto simp: wait_for_event_def split: option.splits list.splits)
  qed
  from Cons.IH [OF _ axs this] Cons.prems(1) show ?case by simp
qed

lemma answers_Line:
  assumes "answers loads n ids (Line line # as)"
  shows "\<exists>response i. line \<noteq> [] \<and> loads line = Inr (JObj response) \<and>
           response_key response = Some (KInt i) \<and> i \<in> set ids \<and>
           answers loads n (removeAll i ids) as"
  using assms by (auto split: sum.splits json.splits option.splits pykey.splits)

lemma answers_running:
  assumes "registry_ok st" and "reader_task st = Running" and "id_counter st = n"
    and "\<forall>i. (i \<in> set ids) = (request_events st (KInt i) \<noteq> None)"
    and "answers loads n ids acts"
  shows "reader_task (exec loads st acts) = Running"
  using assms
proof (induction acts arbitrary: st n ids)
  case Nil
  then show ?case by simp
next
  case (Cons x xs)
  show ?case
  proof (cases x)
    case (Call attr args kwargs)
    let ?st1 = "snd (method_call st attr args kwargs)"
    have ok1: "registry_ok ?st1" using Cons.prems(1) by (rule registry_ok_method)
    have e: "exec loads st (x # xs) = exec loads ?st1 xs"
      using Call by (cases "method_call st attr args kwargs") simp
    show ?thesis
    proof (cases "args \<noteq> [] \<and> kwargs \<noteq> []")
      case True
      then have st1: "?st1 = st\<lparr>id_counter := id_counter st + 1\<rparr>"
        by (simp add: method_call_def Let_def)
      from Cons.prems(5) Call True have a: "answers loads (n + 1) ids xs" by simp
      have "reader_task (exec loads ?st1 xs) = Running"
      proof (rule Cons.IH [OF ok1 _ _ _ a])
        show "reader_task ?st1 = Running" using Cons.prems(2) by (simp add: st1)
        show "id_counter ?st1 = n + 1" using Cons.prems(3) by (simp add: st1)
        show "\<forall>i. (i \<in> set ids) = (request_events ?st1 (KInt i) \<noteq> None)"
          using Cons.prems(4) by (simp add: st1)
      qed
      with e show ?thesis by simp
    next
      case False
      note m = method_ok [OF False, of st attr]
      from Cons.prems(5) Call False have a: "answers loads (n + 1) ((n + 1) # ids) xs" by auto
      have "reader_task (exec loads ?st1 xs) = Running"
      proof (rule Cons.IH [OF ok1 _ _ _ a])
        show "reader_task ?st1 = Running" using Cons.prems(2) by (simp add: m)
        show "id_counter ?st1 = n + 1" using Cons.prems(3) by (simp add: m)
        show "\<forall>i. (i \<in> set ((n + 1) # ids)) = (request_events ?st1 (KInt i) \<noteq> None)"
          using Cons.prems(3,4) by (simp add: m)
      qed
      with e show ?thesis by simp
    qed
  next
    case (Line line)
    from answers_Line [OF Cons.prems(5) [unfolded Line]] obtain response i where
      l: "line \<noteq> []" "loads line = Inr (JObj response)" "response_key response = Some (KInt i)"
      and i: "i \<in> set ids" and a: "answers loads n (removeAll i ids) xs"
      by blast
    from i Cons.prems(4) obtain fut where f: "request_events st (KInt i) = Some fut" by auto
    from registry_okD [OF Cons.prems(1) f]
    have fp: "fut < length (futures st)" "futures st ! fut = Pending" by simp_all
    let ?st1 = "st\<lparr>request_events := (request_events st)(KInt i := None),
                  futures := (futures st)[fut := Result response]\<rparr>"
    have r: "reader_iteration loads st line = ?st1"
      using resolve_step [of line loads response "KInt i" st fut] l f fp by simp
    have e: "exec loads st (x # xs) = exec loads ?st1 xs"
      using Line Cons.prems(2) r by simp
    have ok1: "registry_ok ?st1"
      using registry_ok_step [OF Cons.prems(1), of loads "Line line"] Cons.prems(2) r by simp
    have "reader_task (exec loads ?st1 xs) = Running"
    proof (rule Cons.IH [OF ok1 _ _ _ a])
      show "reader_task ?st1 = Running" using Cons.prems(2) by simp
      show "id_counter ?st1 = n" using Cons.prems(3) by simp
      show "\<forall>j. (j \<in> set (removeAll i ids)) = (request_events ?st1 (KInt j) \<noteq> None)"
        using Cons.prems(4) by auto
    qed
    with e show ?thesis by simp
  next
    case (Wait b)
    obtain r st1 where w: "wait_for_event st b = (r, st1)" by (cases "wait_for_event st b")
    note fs = wait_for_event_fields [OF w]
    from Cons.prems(5) Wait have a: "answers loads n ids xs" by simp
    have ok1: "registry_ok st1"
      using registry_ok_step [OF Cons.prems(1), of loads "Wait b"] w by simp
    have "reader_task (exec loads st1 xs) = Running"
    proof (rule Cons.IH [OF ok1 _ _ _ a])
      show "reader_task st1 = Running" using Cons.prems(2) fs by simp
      show "id_counter st1 = n" using Cons.prems(3) fs by simp
      show "\<forall>i. (i \<in> set ids) = (request_events st1 (KInt i) \<noteq> None)"
        using Cons.prems(4) fs by simp
    qed
    with Wait w show ?thesis by simp
  qed
qed

lemma answers_from_start:
  "answers loads 0 [] acts \<Longrightarrow> reader_task (exec loads start acts) = Running"
  by (rule answers_running [OF registry_ok_start, of 0 "[]"]) (simp_all add: start_def)

text \<open>The reader loop on its own is the execution that consists of its lines.\<close>

lemma exec_lines_stopped:
  "reader_task st \<noteq> Running \<Longrightarrow> exec loads st (map Line lines) = st"
  by (induction lines) simp_all

lemma reader_loop_exec:
  "reader_loop loads st lines = exec loads st (map Line lines)"
  by (induction lines arbitrary: st) (simp_all add: exec_lines_stopped)

section \<open>The claims\<close>

subsection \<open>C1: responses are correlated by id\<close>

text \<open>
  Claim C1. Take any execution after \<^verbatim>\<open>start\<close>: any interleaving \<open>A\<close> of calls, lines
  read and event waits, then a call that is given the id \<open>i\<close> and the future \<open>fut\<close>,
  then any interleaving \<open>B\<close>. The future of the call is never resolved with a response
  whose id is not \<open>i\<close>. If the reader loop has got through all the lines of the execution
  and one of them is a response carrying the id \<open>i\<close>, wherever it stands among the
  other responses, the call resumes with exactly that response object and gives what lines
  96 to 99 make of it. Every later call gets a larger id and another future, so the ids of
  the calls are distinct. And the reader loop does get through all the lines when each of
  them is a response carrying the id of a call that is outstanding at that moment, in
  whatever order the responses come.
\<close>

theorem correlation:
  assumes call: "fst (method_call (exec loads start A) attr args kwargs) = Inr (i, fut)"
  shows "fut < length (futures (exec loads (snd (method_call (exec loads start A) attr args kwargs)) B)) \<and>
    (\<forall>response.
       futures (exec loads (snd (method_call (exec loads start A) attr args kwargs)) B) ! fut = Result response
       \<longrightarrow> response_key response = Some (KInt i)) \<and>
    (\<forall>line response.
       Line line \<in> set (A @ B) \<and> loads line = Inr (JObj response) \<and>
       response_key response = Some (KInt i) \<and>
       reader_task (exec loads (snd (method_call (exec loads start A) attr args kwargs)) B) = Running
       \<longrightarrow> await_fut (exec loads (snd (method_call (exec loads start A) attr args kwargs)) B) fut
             = Returned (method_result response)) \<and>
    (\<forall>attr' args' kwargs' i' fut'.
       fst (method_call (exec loads (snd (method_call (exec loads start A) attr args kwargs)) B)
              attr' args' kwargs') = Inr (i', fut')
       \<longrightarrow> i < i' \<and> fut < fut') \<and>
    (answers loads 0 [] (A @ Call attr args kwargs # B)
       \<longrightarrow> reader_task (exec loads (snd (method_call (exec loads start A) attr args kwargs)) B)
             = Running)"
proof -
  let ?st0 = "exec loads start A"
  let ?st1 = "snd (method_call ?st0 attr args kwargs)"
  let ?st2 = "exec loads ?st1 B"
  have ok0: "registry_ok ?st0" by (simp add: registry_ok_exec registry_ok_start)
  have t1: "tracked i fut ?st1" and i: "i = id_counter ?st0 + 1" and f: "fut = length (futures ?st0)"
    and rt: "reader_task ?st1 = reader_task ?st0"
    using tracked_after_call [OF ok0 call] by blast+
  have ok1: "registry_ok ?st1" using ok0 by (rule registry_ok_method)
  have ok2: "registry_ok ?st2" using ok1 by (rule registry_ok_exec)
  have t2: "tracked i fut ?st2" using ok1 t1 by (rule tracked_exec)
  have idc1: "id_counter ?st1 = i" and len1: "length (futures ?st1) = Suc fut"
    using call method_Inr [of ?st0 attr args kwargs i fut ?st1] by (simp_all add: prod_eq_iff)
  have lt: "fut < length (futures ?st2)"
    using exec_futures_length [of ?st1 loads B] len1 by simp
  have a: "response_key response = Some (KInt i)" if "futures ?st2 ! fut = Result response" for response
  proof -
    from t2 consider "request_events ?st2 (KInt i) = Some fut"
      | r where "futures ?st2 ! fut = Result r" "response_key r = Some (KInt i)"
      by (auto simp: tracked_def)
    then show ?thesis
    proof cases
      case 1
      from registry_okD [OF ok2 1] that show ?thesis by simp
    next
      case 2
      with that show ?thesis by simp
    qed
  qed
  have b: "await_fut ?st2 fut = Returned (method_result response)"
    if l: "Line line \<in> set (A @ B)" "loads line = Inr (JObj response)"
      "response_key response = Some (KInt i)" "reader_task ?st2 = Running"
    for line response
  proof -
    from l(4) have r1: "reader_task ?st1 = Running" by (rule exec_running)
    have "Line line \<notin> set A"
    proof
      assume "Line line \<in> set A"
      from line_id_bound [where loads = loads, OF registry_ok_start this l(2,3)] r1 rt
      have "i \<le> id_counter ?st0" by simp
      with i show False by simp
    qed
    with l(1) have "Line line \<in> set B" by simp
    from resolved_in_suffix [where loads = loads, OF ok1 t1 this l(2,3,4)]
    show ?thesis by (simp add: await_fut_def)
  qed
  have c: "i < i' \<and> fut < fut'"
    if "fst (method_call ?st2 attr' args' kwargs') = Inr (i', fut')" for attr' args' kwargs' i' fut'
  proof -
    have "i' = id_counter ?st2 + 1" "fut' = length (futures ?st2)"
      using tracked_after_call [OF ok2 that] by blast+
    with exec_id_counter [of ?st1 loads B] idc1 lt show ?thesis by simp
  qed
  have d: "reader_task ?st2 = Running" if "answers loads 0 [] (A @ Call attr args kwargs # B)"
  proof -
    have "exec loads start (A @ Call attr args kwargs # B) = ?st2"
      by (cases "method_call ?st0 attr args kwargs") (simp add: exec_append)
    with answers_from_start [OF that] show ?thesis by simp
  qed
  from lt a b c d show ?thesis by blast
qed

theorem correlation_witness:
  \<open>fst (method_call (exec (loads_table sample_responses) start [Call ''first'' [] []])
          ''second'' [JInt 5] []) = Inr (2, 1) \<and>
   reader_task
     (exec (loads_table sample_responses)
        (snd (method_call (exec (loads_table sample_responses) start [Call ''first'' [] []])
                ''second'' [JInt 5] []))
        [Call ''third'' [] [], Line ''{"id": 3, "result": "c"}'',
         Line ''{"id": 2, "result": "b"}'', Line ''{"id": 1, "result": "a"}''])
     = Running \<and>
   await_fut
     (exec (loads_table sample_responses)
        (snd (method_call (exec (loads_table sample_responses) start [Call ''first'' [] []])
                ''second'' [JInt 5] []))
        [Call ''third'' [] [], Line ''{"id": 3, "result": "c"}'',
         Line ''{"id": 2, "result": "b"}'', Line ''{"id": 1, "result": "a"}'']) 1
     = Returned (Inr (JStr ''b''))\<close>
  using
    correlation [of \<open>loads_table sample_responses\<close>
      "[Call ''first'' [] []]" "''second''" "[JInt 5]" "[]" 2 1
      \<open>[Call ''third'' [] [], Line ''{"id": 3, "result": "c"}'',
         Line ''{"id": 2, "result": "b"}'', Line ''{"id": 1, "result": "a"}'']\<close>,
      THEN conjunct2, THEN conjunct2, THEN conjunct1, rule_format,
      of \<open>''{"id": 2, "result": "b"}''\<close> "[(''id'', JInt 2), (''result'', JStr ''b'')]"]
    correlation [of \<open>loads_table sample_responses\<close>
      "[Call ''first'' [] []]" "''second''" "[JInt 5]" "[]" 2 1
      \<open>[Call ''third'' [] [], Line ''{"id": 3, "result": "c"}'',
         Line ''{"id": 2, "result": "b"}'', Line ''{"id": 1, "result": "a"}'']\<close>,
      THEN conjunct2, THEN conjunct2, THEN conjunct2, THEN conjunct2]
  by (simp add: sample_responses_def eval_defs)

subsection \<open>C2: the first call after start\<close>

text \<open>
  Claim C2. After \<^verbatim>\<open>start\<close>, calling \<^verbatim>\<open>get_info\<close> without arguments writes to the
  child's stdin exactly the line
  \<^verbatim>\<open>{"jsonrpc": "2.0", "method": "get_info", "params": [], "id": 1}\<close> and a newline:
  the parameters are an empty array and the id of the first call is 1. The caller is
  then suspended on its future; once the reader loop has read the line
  \<^verbatim>\<open>{"id": 1, "result": {"version": "1.0"}}\<close>, which \<^verbatim>\<open>json.loads\<close> decodes to the
  corresponding dictionary, the call returns \<^verbatim>\<open>{"version": "1.0"}\<close>.
\<close>

theorem get_info_scenario:
  assumes \<open>loads (''{"id": 1, "result": {"version": "1.0"}}'' @ [CHR 0x0A]) =
             Inr (JObj [(''id'', JInt 1), (''result'', JObj [(''version'', JStr ''1.0'')])])\<close>
  shows \<open>fst (method_call start ''get_info'' [] []) = Inr (1, 0) \<and>
         stdin (snd (method_call start ''get_info'' [] [])) =
           ''{"jsonrpc": "2.0", "method": "get_info", "params": [], "id": 1}'' @ [CHR 0x0A] \<and>
         await_fut (snd (method_call start ''get_info'' [] [])) 0 = Suspended \<and>
         await_fut (reader_iteration loads (snd (method_call start ''get_info'' [] []))
                      (''{"id": 1, "result": {"version": "1.0"}}'' @ [CHR 0x0A])) 0 =
           Returned (Inr (JObj [(''version'', JStr ''1.0'')]))\<close>
proof -
  let ?st1 = "snd (method_call start ''get_info'' [] [])"
  let ?line = \<open>''{"id": 1, "result": {"version": "1.0"}}'' @ [CHR 0x0A]\<close>
  let ?response = "[(''id'', JInt 1), (''result'', JObj [(''version'', JStr ''1.0'')])]"
  have m: "method_call start ''get_info'' [] [] =
     (Inr (1, 0), start\<lparr>id_counter := 1,
        stdin := dumps (JObj [(''jsonrpc'', JStr ''2.0''), (''method'', JStr ''get_info''),
                   (''params'', JArr []), (''id'', JInt 1)]) @ [CHR 0x0A],
        futures := [Pending], request_events := [KInt 1 \<mapsto> 0]\<rparr>)"
    using method_ok [of "[]" "[]" start "''get_info''"] by (simp add: start_def)
  have 1: "fst (method_call start ''get_info'' [] []) = Inr (1, 0)" by (simp add: m)
  have 2: \<open>stdin ?st1 = ''{"jsonrpc": "2.0", "method": "get_info", "params": [], "id": 1}'' @ [CHR 0x0A]\<close>
    by (simp only: m snd_conv get_info_request) simp
  have 3: "await_fut ?st1 0 = Suspended" by (simp add: m await_fut_def)
  have k: "response_key ?response = Some (KInt 1)" by (simp add: response_key_def)
  have "reader_iteration loads ?st1 ?line =
          ?st1\<lparr>request_events := (request_events ?st1)(KInt 1 := None),
               futures := (futures ?st1)[0 := Result ?response]\<rparr>"
  proof (rule resolve_step [of ?line loads ?response "KInt 1" ?st1 0])
    show "loads ?line = Inr (JObj ?response)" by (rule assms)
  qed (simp_all add: k m)
  then have 4: "await_fut (reader_iteration loads ?st1 ?line) 0 =
      Returned (Inr (JObj [(''version'', JStr ''1.0'')]))"
    by (simp add: m await_fut_def method_result_def)
  from 1 2 3 4 show ?thesis by blast
qed

theorem get_info_scenario_witness:
  \<open>stdin (snd (method_call start ''get_info'' [] [])) =
     ''{"jsonrpc": "2.0", "method": "get_info", "params": [], "id": 1}'' @ [CHR 0x0A] \<and>
   await_fut (reader_iteration
       (loads_table [(''{"id": 1, "result": {"version": "1.0"}}'' @ [CHR 0x0A],
           JObj [(''id'', JInt 1), (''result'', JObj [(''version'', JStr ''1.0'')])])])
       (snd (method_call start ''get_info'' [] []))
       (''{"id": 1, "result": {"version": "1.0"}}'' @ [CHR 0x0A])) 0 =
     Returned (Inr (JObj [(''version'', JStr ''1.0'')]))\<close>
  using get_info_scenario [of \<open>loads_table [(''{"id": 1, "result": {"version": "1.0"}}'' @ [CHR 0x0A],
           JObj [(''id'', JInt 1), (''result'', JObj [(''version'', JStr ''1.0'')])])]\<close>]
  by (simp add: loads_table_def)

subsection \<open>C3: remote errors and results\<close>

text \<open>
  Claim C3. When the reader loop reads the response to a pending call, registered under
  the id the response carries, the call fails with \<^verbatim>\<open>JsonRpcError\<close> holding the
  \<^verbatim>\<open>error\<close> field of the response as it is when the response has one; when it has a
  \<^verbatim>\<open>result\<close> field instead, the call returns exactly that value.
\<close>

theorem error_propagation:
  assumes "line \<noteq> []" and "loads line = Inr (JObj response)"
    and "response_key response = Some k"
    and "request_events st k = Some fut"
    and "fut < length (futures st)" and "futures st ! fut = Pending"
  shows "(map_of response ''error'' = Some e \<longrightarrow>
            await_fut (reader_iteration loads st line) fut = Returned (Inl (JsonRpcError e))) \<and>
         (map_of response ''error'' = None \<and> map_of response ''result'' = Some r \<longrightarrow>
            await_fut (reader_iteration loads st line) fut = Returned (Inr r))"
  using assms resolve_step [of line loads response k st fut]
  by (simp add: await_fut_def method_result_def)

theorem error_propagation_witness:
  \<open>await_fut
     (reader_iteration
        (loads_table [(''{"id": 7, "error": {"code": -1, "message": "x"}}'',
           JObj [(''id'', JInt 7), (''error'', JObj [(''code'', JInt (- 1)), (''message'', JStr ''x'')])])])
        (snd (method_call (start\<lparr>id_counter := 6\<rparr>) ''get_chat'' [JInt 12] [])) ''{"id": 7, "error": {"code": -1, "message": "x"}}'') 0 =
     Returned (Inl (JsonRpcError (JObj [(''code'', JInt (- 1)), (''message'', JStr ''x'')]))) \<and>
   await_fut
     (reader_iteration
        (loads_table [(''{"id": 7, "result": "ok"}'',
           JObj [(''id'', JInt 7), (''result'', JStr ''ok'')])])
        (snd (method_call (start\<lparr>id_counter := 6\<rparr>) ''get_chat'' [JInt 12] [])) ''{"id": 7, "result": "ok"}'') 0 =
     Returned (Inr (JStr ''ok''))\<close>
  using
    error_propagation [of \<open>''{"id": 7, "error": {"code": -1, "message": "x"}}''\<close>
      \<open>loads_table [(''{"id": 7, "error": {"code": -1, "message": "x"}}'',
           JObj [(''id'', JInt 7), (''error'', JObj [(''code'', JInt (- 1)), (''message'', JStr ''x'')])])]\<close>
      "[(''id'', JInt 7), (''error'', JObj [(''code'', JInt (- 1)), (''message'', JStr ''x'')])]"
      "KInt 7"
      "snd (method_call (start\<lparr>id_counter := 6\<rparr>) ''get_chat'' [JInt 12] [])" 0
      "JObj [(''code'', JInt (- 1)), (''message'', JStr ''x'')]" JNull]
    error_propagation [of \<open>''{"id": 7, "result": "ok"}''\<close>
      \<open>loads_table [(''{"id": 7, "result": "ok"}'',
           JObj [(''id'', JInt 7), (''result'', JStr ''ok'')])]\<close>
      "[(''id'', JInt 7), (''result'', JStr ''ok'')]"
      "KInt 7"
      "snd (method_call (start\<lparr>id_counter := 6\<rparr>) ''get_chat'' [JInt 12] [])" 0 JNull "JStr ''ok''"]
  by (simp add: loads_table_def response_key_def method_ok start_def)

subsection \<open>C4: a pending call is resolved at most once\<close>

text \<open>
  Claim C4. In any execution after \<^verbatim>\<open>start\<close> in which the reader loop has resolved a
  call with a response line carrying some id, and is still running after any further
  calls, lines and event waits, a second response line with the same id finds no entry in
  the registry: \<^verbatim>\<open>pop\<close> raises \<^verbatim>\<open>KeyError\<close>, which ends the reader task with that
  exception, and nothing else in the state changes; no future is resolved a second time.
\<close>

theorem at_most_once:
  assumes "loads line1 = Inr (JObj r1)" and "response_key r1 = Some k"
    and "line2 \<noteq> []" and "loads line2 = Inr (JObj r2)" and "response_key r2 = Some k"
    and "reader_task (exec loads start (A @ Line line1 # B)) = Running"
  shows "exec loads start (A @ Line line1 # B @ [Line line2]) =
           (exec loads start (A @ Line line1 # B))\<lparr>reader_task := Failed KeyError\<rparr>"
proof -
  let ?st0 = "exec loads start A"
  let ?st1 = "snd (step loads ?st0 (Line line1))"
  let ?st2 = "exec loads ?st1 B"
  have e2: "exec loads start (A @ Line line1 # B) = ?st2" by (simp add: exec_append)
  have e3: "exec loads start (A @ Line line1 # B @ [Line line2]) = snd (step loads ?st2 (Line line2))"
    by (simp add: exec_append)
  have ok0: "registry_ok ?st0" by (simp add: registry_ok_exec registry_ok_start)
  from assms(6) have run2: "reader_task ?st2 = Running" by (simp add: e2)
  then have run1: "reader_task ?st1 = Running" by (rule exec_running)
  from line_processed [OF run1 assms(1,2)]
  obtain f where f: "request_events ?st0 k = Some f"
    and st1: "?st1 = ?st0\<lparr>request_events := (request_events ?st0)(k := None),
                futures := (futures ?st0)[f := Result r1]\<rparr>"
    by blast
  from registry_okD [OF ok0 f] have "\<forall>j. k = KInt j \<longrightarrow> j \<le> id_counter ?st0" by auto
  then have "spent k ?st1" by (subst st1) (simp add: spent_def)
  then have "spent k ?st2" by (rule spent_exec)
  then have "request_events ?st2 k = None" by (simp add: spent_def)
  from route_unregistered [OF assms(5) this]
  have "reader_iteration loads ?st2 line2 = ?st2\<lparr>reader_task := Failed KeyError\<rparr>"
    using assms(3,4) by (simp add: reader_iteration_def del: route.simps)
  with run2 show ?thesis by (simp add: e2 e3)
qed

theorem at_most_once_witness:
  \<open>reader_task
     (exec (loads_table sample_responses)
        start
        ([Call ''first'' [] []] @ Line ''{"id": 1, "result": "a"}'' # [Call ''second'' [] []]
           @ [Line ''{"id": 1, "result": "z"}''])) = Failed KeyError \<and>
   await_fut
     (exec (loads_table sample_responses)
        start
        ([Call ''first'' [] []] @ Line ''{"id": 1, "result": "a"}'' # [Call ''second'' [] []]
           @ [Line ''{"id": 1, "result": "z"}''])) 0 = Returned (Inr (JStr ''a''))\<close>
  using at_most_once [of
      \<open>loads_table sample_responses\<close>
      \<open>''{"id": 1, "result": "a"}''\<close> "[(''id'', JInt 1), (''result'', JStr ''a'')]" "KInt 1"
      \<open>''{"id": 1, "result": "z"}''\<close> "[(''id'', JInt 1), (''result'', JStr ''z'')]"
      "[Call ''first'' [] []]" "[Call ''second'' [] []]"]
  by (simp add: sample_responses_def eval_defs)

subsection \<open>C5: events of an account come out in the order they arrived\<close>

text \<open>
  Claim C5. Take any execution from any state, an interleaving of calls, lines read and
  \<^verbatim>\<open>wait_for_event\<close> calls on any accounts, that the reader loop gets through. For
  every account, the events that its \<^verbatim>\<open>wait_for_event\<close> calls returned, followed by
  what is left in its queue, are the events that were in its queue at the beginning
  followed by the events that the lines brought for it, in the order of the lines: events
  of one account are handed out first in, first out. A \<^verbatim>\<open>wait_for_event\<close> on one
  account leaves the queue of every other account as it is.
\<close>

theorem event_order:
  "(reader_task (exec loads st acts) = Running \<longrightarrow>
      yielded loads st a acts @ queue_of (exec loads st acts) a
        = queue_of st a @ arrived loads a acts) \<and>
   (a \<noteq> b \<longrightarrow>
      event_queues (snd (wait_for_event st b)) (KInt a) = event_queues st (KInt a))"
proof
  show "reader_task (exec loads st acts) = Running \<longrightarrow>
      yielded loads st a acts @ queue_of (exec loads st acts) a
        = queue_of st a @ arrived loads a acts"
  proof (induction acts arbitrary: st)
    case Nil
    show ?case by simp
  next
    case (Cons x xs)
    show ?case
    proof
      assume run: "reader_task (exec loads st (x # xs)) = Running"
      let ?st1 = "snd (step loads st x)"
      from run have run1: "reader_task ?st1 = Running" by (auto dest: exec_running)
      from run Cons [of ?st1]
      have ih: "yielded loads ?st1 a xs @ queue_of (exec loads ?st1 xs) a
                  = queue_of ?st1 a @ arrived loads a xs" by simp
      have "yielded loads st a (x # xs) @ queue_of (exec loads st (x # xs)) a
          = event_yielded a x (fst (step loads st x)) @
              (yielded loads ?st1 a xs @ queue_of (exec loads ?st1 xs) a)" by simp
      also have "\<dots> = (event_yielded a x (fst (step loads st x)) @ queue_of ?st1 a)
                        @ arrived loads a xs" by (simp only: ih append_assoc)
      also have "\<dots> = (queue_of st a @ arrived loads a [x]) @ arrived loads a xs"
        by (simp only: step_queue_of [OF run1])
      also have "\<dots> = queue_of st a @ arrived loads a (x # xs)"
        by (simp only: append_assoc arrived_Cons [of loads a x xs, symmetric])
      finally show "yielded loads st a (x # xs) @ queue_of (exec loads st (x # xs)) a
          = queue_of st a @ arrived loads a (x # xs)" .
    qed
  qed
next
  show "a \<noteq> b \<longrightarrow>
      event_queues (snd (wait_for_event st b)) (KInt a) = event_queues st (KInt a)"
    by (simp add: wait_other_queue)
qed

theorem event_order_witness:
  \<open>yielded
     (loads_table sample_events)
     start 5
     [Line ''{"method": "event", "params": {"contextId": 5, "event": "A"}}'',
      Line ''{"method": "event", "params": {"contextId": 6, "event": "X"}}'',
      Line ''{"method": "event", "params": {"contextId": 5, "event": "B"}}'',
      Wait 6, Wait 5, Wait 5]
   = [JStr ''A'', JStr ''B'']\<close>
  using event_order [of
     \<open>loads_table sample_events\<close>
     start
     \<open>[Line ''{"method": "event", "params": {"contextId": 5, "event": "A"}}'',
      Line ''{"method": "event", "params": {"contextId": 6, "event": "X"}}'',
      Line ''{"method": "event", "params": {"contextId": 5, "event": "B"}}'',
      Wait 6, Wait 5, Wait 5]\<close> 5 6]
  by (simp add: sample_events_def eval_defs eval_event_defs)

subsection \<open>C6: the queue, not its content, decides whether a wait suspends\<close>

text \<open>
  Claim C6. For an account without a queue \<^verbatim>\<open>wait_for_event\<close> returns \<^verbatim>\<open>None\<close> at
  once and changes nothing; this is the case after any execution from \<^verbatim>\<open>start\<close>
  that the reader loop got through and that brought no event for the account. For an
  account whose queue exists the call takes the oldest event of the queue; when the queue
  is empty it suspends, and once the reader loop has put the next event of the account
  into the queue the call returns that event.
\<close>

theorem queue_presence:
  "(reader_task (exec loads start acts) = Running \<and> arrived loads a acts = [] \<longrightarrow>
      wait_for_event (exec loads start acts) a = (Returned None, exec loads start acts)) \<and>
   (event_queues st (KInt a) = None \<longrightarrow> wait_for_event st a = (Returned None, st)) \<and>
   (event_queues st (KInt a) = Some [] \<longrightarrow> wait_for_event st a = (Suspended, st)) \<and>
   (event_queues st (KInt a) = Some [] \<and> line \<noteq> [] \<and> wire_event loads a line = [ev] \<longrightarrow>
      wait_for_event (reader_iteration loads st line) a =
        (Returned (Some ev),
         (reader_iteration loads st line)\<lparr>event_queues :=
            (event_queues (reader_iteration loads st line))(KInt a \<mapsto> [])\<rparr>)) \<and>
   (event_queues st (KInt a) = Some (ev # rest) \<longrightarrow>
      wait_for_event st a =
        (Returned (Some ev), st\<lparr>event_queues := (event_queues st)(KInt a \<mapsto> rest)\<rparr>))"
proof (intro conjI impI)
  assume "reader_task (exec loads start acts) = Running \<and> arrived loads a acts = []"
  then have "event_queues (exec loads start acts) (KInt a) = None"
    by (intro no_queue_exec) (simp_all add: start_def)
  then show "wait_for_event (exec loads start acts) a = (Returned None, exec loads start acts)"
    by (simp add: wait_for_event_def)
next
  assume "event_queues st (KInt a) = None"
  then show "wait_for_event st a = (Returned None, st)" by (simp add: wait_for_event_def)
next
  assume "event_queues st (KInt a) = Some []"
  then show "wait_for_event st a = (Suspended, st)" by (simp add: wait_for_event_def)
next
  assume h: "event_queues st (KInt a) = Some [] \<and> line \<noteq> [] \<and> wire_event loads a line = [ev]"
  then have "event_queues (reader_iteration loads st line) (KInt a) = Some [ev]"
    using event_enqueued [of line loads a ev st] by (simp add: queue_of_def)
  then show "wait_for_event (reader_iteration loads st line) a =
        (Returned (Some ev),
         (reader_iteration loads st line)\<lparr>event_queues :=
            (event_queues (reader_iteration loads st line))(KInt a \<mapsto> [])\<rparr>)"
    by (simp add: wait_for_event_def)
next
  assume "event_queues st (KInt a) = Some (ev # rest)"
  then show "wait_for_event st a =
        (Returned (Some ev), st\<lparr>event_queues := (event_queues st)(KInt a \<mapsto> rest)\<rparr>)"
    by (simp add: wait_for_event_def)
qed

theorem queue_presence_witness:
  \<open>fst (wait_for_event
          (exec (loads_table sample_events) start
             [Line ''{"method": "event", "params": {"contextId": 6, "event": "X"}}'']) 5)
     = Returned None \<and>
   fst (wait_for_event
          (exec (loads_table sample_events) start
             [Line ''{"method": "event", "params": {"contextId": 5, "event": "A"}}'', Wait 5]) 5)
     = Suspended \<and>
   fst (wait_for_event
          (reader_iteration (loads_table sample_events)
             (exec (loads_table sample_events) start
                [Line ''{"method": "event", "params": {"contextId": 5, "event": "A"}}'', Wait 5])
             ''{"method": "event", "params": {"contextId": 5, "event": "B"}}'') 5)
     = Returned (Some (JStr ''B'')) \<and>
   fst (wait_for_event
          (exec (loads_table sample_events) start
             [Line ''{"method": "event", "params": {"contextId": 5, "event": "A"}}'']) 5)
     = Returned (Some (JStr ''A''))\<close>
  using
    queue_presence [of \<open>loads_table sample_events\<close>
      \<open>[Line ''{"method": "event", "params": {"contextId": 6, "event": "X"}}'']\<close> 5
      \<open>exec (loads_table sample_events) start
         [Line ''{"method": "event", "params": {"contextId": 6, "event": "X"}}'']\<close>
      \<open>''{"method": "event", "params": {"contextId": 5, "event": "B"}}''\<close>
      \<open>JStr ''B''\<close> "[]"]
    queue_presence [of \<open>loads_table sample_events\<close>
      \<open>[Line ''{"method": "event", "params": {"contextId": 6, "event": "X"}}'']\<close> 5
      \<open>exec (loads_table sample_events) start
         [Line ''{"method": "event", "params": {"contextId": 5, "event": "A"}}'', Wait 5]\<close>
      \<open>''{"method": "event", "params": {"contextId": 5, "event": "B"}}''\<close>
      \<open>JStr ''B''\<close> "[]"]
    queue_presence [of \<open>loads_table sample_events\<close>
      \<open>[Line ''{"method": "event", "params": {"contextId": 6, "event": "X"}}'']\<close> 5
      \<open>exec (loads_table sample_events) start
         [Line ''{"method": "event", "params": {"contextId": 5, "event": "A"}}'']\<close>
      \<open>''{"method": "event", "params": {"contextId": 5, "event": "B"}}''\<close>
      \<open>JStr ''A''\<close> "[]"]
  by (simp add: sample_events_def eval_defs eval_event_defs)

subsection \<open>C7: messages that are neither responses nor events\<close>

text \<open>
  Claim C7. A line that decodes to a dictionary without an \<^verbatim>\<open>id\<close> field and whose
  \<^verbatim>\<open>method\<close> is not \<^verbatim>\<open>"event"\<close>, a dictionary without a \<^verbatim>\<open>method\<close> field
  included, is only printed as a diagnostic: the reader loop keeps running and the message
  is not dropped. The code falls short of this. Its last branch, \<^verbatim>\<open>else: print(response)\<close>
  of lines 68 and 69, is there to catch every other message, and the test for \<^verbatim>\<open>id\<close>
  of line 58 cannot raise; but the test of line 61 subscripts \<^verbatim>\<open>response["method"]\<close>,
  so for a dictionary with neither \<^verbatim>\<open>id\<close> nor \<^verbatim>\<open>method\<close>, such as
  \<^verbatim>\<open>{"status": "ready"}\<close>, it raises \<^verbatim>\<open>KeyError\<close> before the last branch is
  reached: the reader task ends with that exception and nothing is printed.
\<close>

theorem no_method_fatal:
  \<open>reader_task (reader_iteration
      (loads_table [(''{"status": "ready"}'', JObj [(''status'', JStr ''ready'')])])
      start ''{"status": "ready"}'') = Failed KeyError \<and>
    printed (reader_iteration
      (loads_table [(''{"status": "ready"}'', JObj [(''status'', JStr ''ready'')])])
      start ''{"status": "ready"}'') = []\<close>
  by (simp add: eval_defs)

text \<open>
  With a \<^verbatim>\<open>method\<close> field that is not \<^verbatim>\<open>"event"\<close> the last branch is reached: the
  message is printed, the reader task keeps running and nothing else changes.
\<close>

lemma unknown_message_printed:
  assumes "line \<noteq> []" and "loads line = Inr (JObj d)"
    and "map_of d ''id'' = None" and "map_of d ''method'' = Some m" and "m \<noteq> JStr ''event''"
  shows "reader_iteration loads st line = st\<lparr>printed := printed st @ [JObj d]\<rparr>"
  using assms by (simp add: reader_iteration_def)

subsection \<open>C8: positional and named arguments in one call\<close>

text \<open>
  Claim C8. A call that is given both positional and named arguments raises
  \<^verbatim>\<open>AssertionError\<close> in its first segment, before anything is written to the child
  and before a future is created or registered: only the id counter has moved.
  (Assertions are taken to be enabled, as they are unless Python runs with \<^verbatim>\<open>-O\<close>.)
\<close>

theorem mixed_arguments:
  assumes "args \<noteq> []" and "kwargs \<noteq> []"
  shows "method_call st attr args kwargs = (Inl AssertionError, st\<lparr>id_counter := id_counter st + 1\<rparr>)"
  using assms by (simp add: method_call_def Let_def)

theorem mixed_arguments_witness:
  "fst (method_call start ''send_msg'' [JInt 1] [(''text'', JStr ''hi'')]) = Inl AssertionError \<and>
   stdin (snd (method_call start ''send_msg'' [JInt 1] [(''text'', JStr ''hi'')])) = [] \<and>
   futures (snd (method_call start ''send_msg'' [JInt 1] [(''text'', JStr ''hi'')])) = []"
  using mixed_arguments [of "[JInt 1]" "[(''text'', JStr ''hi'')]" start "''send_msg''"]
  by (simp add: start_def)

subsection \<open>C9: the storage root in the child's environment\<close>

text \<open>
  Claim C9, as amended. For every construction of the transport with a non-empty
  \<^verbatim>\<open>accounts_dir\<close> and with the \<^verbatim>\<open>env\<close> argument either not given or given as a
  mapping, the construction succeeds and the child's environment binds
  \<^verbatim>\<open>DC_ACCOUNTS_PATH\<close> to that directory, whatever the base environment bound it to,
  and every other variable is as in the base environment: the \<^verbatim>\<open>env\<close> mapping when
  it is given, \<^verbatim>\<open>os.environ\<close> otherwise. Both conditions are hypotheses of the
  theorem: \<open>dir \<noteq> []\<close>, and \<open>kwargs ''env''\<close> is \<open>None\<close> (with \<open>os_environ\<close> as the
  base) or \<open>Some (PyMapping base)\<close>.
\<close>

theorem accounts_dir_env:
  assumes "dir \<noteq> []"
    and "kwargs ''env'' = None \<and> base = os_environ \<or> kwargs ''env'' = Some (PyMapping base)"
  shows "init os_environ (Some dir) kwargs =
           Inr (kwargs(''env'' \<mapsto> PyMapping (base(''DC_ACCOUNTS_PATH'' \<mapsto> dir)))) \<and>
         child_env os_environ (kwargs(''env'' \<mapsto> PyMapping (base(''DC_ACCOUNTS_PATH'' \<mapsto> dir))))
           = Inr (base(''DC_ACCOUNTS_PATH'' \<mapsto> dir)) \<and>
         (base(''DC_ACCOUNTS_PATH'' \<mapsto> dir)) ''DC_ACCOUNTS_PATH'' = Some dir \<and>
         (\<forall>name. name \<noteq> ''DC_ACCOUNTS_PATH'' \<longrightarrow>
            (base(''DC_ACCOUNTS_PATH'' \<mapsto> dir)) name = base name)"
  using assms by (auto simp: init_def child_env_def)

theorem accounts_dir_env_witness:
  "init (map_of [(''HOME'', ''/root''), (''DC_ACCOUNTS_PATH'', ''/old'')]) (Some ''/data'')
     (map_of [(''cwd'', PyOther ''/tmp'')])
     = Inr ((map_of [(''cwd'', PyOther ''/tmp'')])(''env'' \<mapsto> PyMapping
         ((map_of [(''HOME'', ''/root''), (''DC_ACCOUNTS_PATH'', ''/old'')])
            (''DC_ACCOUNTS_PATH'' \<mapsto> ''/data'')))) \<and>
   ((map_of [(''HOME'', ''/root''), (''DC_ACCOUNTS_PATH'', ''/old'')])
      (''DC_ACCOUNTS_PATH'' \<mapsto> ''/data'')) ''DC_ACCOUNTS_PATH'' = Some ''/data'' \<and>
   ((map_of [(''HOME'', ''/root''), (''DC_ACCOUNTS_PATH'', ''/old'')])
      (''DC_ACCOUNTS_PATH'' \<mapsto> ''/data'')) ''HOME'' = Some ''/root''"
  using accounts_dir_env [of "''/data''" "map_of [(''cwd'', PyOther ''/tmp'')]"
      "map_of [(''HOME'', ''/root''), (''DC_ACCOUNTS_PATH'', ''/old'')]"
      "map_of [(''HOME'', ''/root''), (''DC_ACCOUNTS_PATH'', ''/old'')]"]
  by simp

text \<open>
  The claim C9 as stated fails for the empty path: \<^verbatim>\<open>Rpc(accounts_dir="")\<close> does not
  pass the test of line 14, the arguments are left as they are, and the child's
  environment does not bind \<^verbatim>\<open>DC_ACCOUNTS_PATH\<close>.
\<close>

theorem empty_accounts_dir_counterexample:
  "init (map_of [(''HOME'', ''/root'')]) (Some []) (map_of [(''cwd'', PyOther ''/tmp'')])
     = Inr (map_of [(''cwd'', PyOther ''/tmp'')]) \<and>
   child_env (map_of [(''HOME'', ''/root'')]) (map_of [(''cwd'', PyOther ''/tmp'')])
     = Inr (map_of [(''HOME'', ''/root'')]) \<and>
   map_of [(''HOME'', ''/root'')] ''DC_ACCOUNTS_PATH'' = (None :: string option)"
  by (simp add: init_def child_env_def)

text \<open>
  The condition on \<^verbatim>\<open>env\<close> is needed. An \<^verbatim>\<open>env\<close> argument that is given but is
  not a mapping cannot be unpacked by line 16, and the construction raises
  \<^verbatim>\<open>TypeError\<close>. That holds for \<^verbatim>\<open>env=None\<close> too, with which a child spawned
  without \<^verbatim>\<open>accounts_dir\<close> inherits the environment of the parent.
\<close>

lemma init_env_not_a_mapping:
  assumes "dir \<noteq> []" and "kwargs ''env'' = Some PyNone \<or> kwargs ''env'' = Some (PyOther v)"
  shows "init os_environ (Some dir) kwargs = Inl TypeError"
  using assms by (auto simp: init_def)

lemma child_env_None:
  "kwargs ''env'' = Some PyNone \<Longrightarrow> child_env os_environ kwargs = Inr os_environ"
  by (simp add: child_env_def)

subsection \<open>C10: a response with neither error nor result\<close>

text \<open>
  Claim C10. When the response to a pending call has neither an \<^verbatim>\<open>error\<close> nor a
  \<^verbatim>\<open>result\<close> field, the call returns \<^verbatim>\<open>None\<close> and raises nothing.
\<close>

theorem missing_result:
  assumes "line \<noteq> []" and "loads line = Inr (JObj response)"
    and "response_key response = Some k"
    and "request_events st k = Some fut"
    and "fut < length (futures st)" and "futures st ! fut = Pending"
    and "map_of response ''error'' = None" and "map_of response ''result'' = None"
  shows "await_fut (reader_iteration loads st line) fut = Returned (Inr JNull)"
  using assms resolve_step [of line loads response k st fut]
  by (simp add: await_fut_def method_result_def)

theorem missing_result_witness:
  \<open>await_fut
     (reader_iteration (loads_table [(''{"id": 7}'', JObj [(''id'', JInt 7)])]) (snd (method_call (start\<lparr>id_counter := 6\<rparr>) ''get_chat'' [JInt 12] [])) ''{"id": 7}'') 0 =
     Returned (Inr JNull)\<close>
  using missing_result [of \<open>''{"id": 7}''\<close> \<open>loads_table [(''{"id": 7}'', JObj [(''id'', JInt 7)])]\<close>
      "[(''id'', JInt 7)]" "KInt 7"
      "snd (method_call (start\<lparr>id_counter := 6\<rparr>) ''get_chat'' [JInt 12] [])" 0]
  by (simp add: loads_table_def response_key_def method_ok start_def)

end
